theory Spec2Isabelle
  imports Main "HOL-Library.Signed_Division"
begin

section \<open>MTFindProd.c: the modular product of an array, sequentially and with threads\<close>

text \<open>
  A shallow embedding of \<^verbatim>\<open>src/Assignment 3/MTFindProd.c\<close>. Every C function becomes a HOL
  function of the same name; a \<^verbatim>\<open>for\<close> loop becomes a recursive function named after the
  function that holds it, with the loop variables as arguments; the global variables become
  the fields of the record \<open>globals\<close>, passed in and returned.
\<close>

subsection \<open>Constants of the program\<close>

definition MAX_SIZE :: int where
  "MAX_SIZE = 100000000"

definition MAX_THREADS :: int where
  "MAX_THREADS = 16"

definition MAX_RANDOM_NUMBER :: int where
  "MAX_RANDOM_NUMBER = 3000"

definition NUM_LIMIT :: int where
  "NUM_LIMIT = 9973"

subsection \<open>The arithmetic of C's 32-bit int\<close>

text \<open>
  An \<^verbatim>\<open>int\<close> is a mathematical integer between \<open>INT_MIN\<close> and \<open>INT_MAX\<close>. Addition,
  subtraction and multiplication wrap around in two's complement; \<^verbatim>\<open>/\<close> and \<^verbatim>\<open>%\<close> truncate
  towards zero (\<open>sdiv\<close> and \<open>smod\<close>), so that the remainder has the sign of the dividend.
\<close>

definition INT_MAX :: int where
  "INT_MAX = 2147483647"

definition INT_MIN :: int where
  "INT_MIN = - 2147483648"

definition wrap32 :: "int \<Rightarrow> int" where
  "wrap32 x = (x + 2147483648) mod 4294967296 - 2147483648"

definition add32 :: "int \<Rightarrow> int \<Rightarrow> int" where
  "add32 a b = wrap32 (a + b)"

definition sub32 :: "int \<Rightarrow> int \<Rightarrow> int" where
  "sub32 a b = wrap32 (a - b)"

definition mul32 :: "int \<Rightarrow> int \<Rightarrow> int" where
  "mul32 a b = wrap32 (a * b)"

definition div32 :: "int \<Rightarrow> int \<Rightarrow> int" where
  "div32 a b = wrap32 (a sdiv b)"

definition rem32 :: "int \<Rightarrow> int \<Rightarrow> int" where
  "rem32 a b = a smod b"

subsection \<open>The global variables and what the program prints\<close>

datatype mode = Sequential | JoinBarrier | BusyWait | CounterSignal

text \<open>
  What a run does that can be seen from outside, in order: a report line on the standard
  output (one \<^verbatim>\<open>printf\<close> per computation mode, with the product it prints; the elapsed time
  in it comes from the clock and is left out), the creation of a thread, the line a thread
  prints when it starts, and the join of a thread.
\<close>

datatype event =
    PrintReport mode int
  | PthreadCreate int
  | PrintThreadStarted int int int
  | PthreadJoin int

text \<open>A row of \<^verbatim>\<open>indices\<close> or \<^verbatim>\<open>params\<close>: division number, start index, end index.\<close>

type_synonym row = "int \<times> int \<times> int"

text \<open>
  The arrays are lists of their cells. \<open>completed\<close> and \<open>mutex\<close> are the values of the two
  semaphores.
\<close>

record globals =
  gData :: "int list"
  gThreadCount :: int
  gDoneThreadCount :: int
  gThreadProd :: "int list"
  gThreadDone :: "bool list"
  completed :: nat
  mutex :: nat
  trace :: "event list"

text \<open>
  \<^verbatim>\<open>sem_post\<close> adds one to a semaphore. \<^verbatim>\<open>sem_wait\<close> takes one from a positive semaphore;
  on a semaphore that is 0 the caller blocks, which is \<open>None\<close> here.
\<close>

definition sem_post :: "nat \<Rightarrow> nat" where
  "sem_post s = s + 1"

definition sem_wait :: "nat \<Rightarrow> nat option" where
  "sem_wait s = (if 0 < s then Some (s - 1) else None)"

subsection \<open>SqFindProd\<close>

text \<open>
  Line 249, which the two reducers and the aggregator share:
  \<^verbatim>\<open>product = (product * x) % NUM_LIMIT\<close>.
\<close>

definition mod_step :: "int \<Rightarrow> int \<Rightarrow> int" where
  "mod_step product x = rem32 (mul32 product x) NUM_LIMIT"

text \<open>
  The loop of \<^verbatim>\<open>SqFindProd\<close>, from the index \<open>i\<close> with the running \<open>product\<close>. The index
  stays below \<open>sz\<close> (the argument \<^verbatim>\<open>size\<close>), so \<^verbatim>\<open>i++\<close> does not overflow.
\<close>

function SqFindProd_loop :: "int list \<Rightarrow> int \<Rightarrow> int \<Rightarrow> int \<Rightarrow> int" where
  "SqFindProd_loop gd sz i product =
     (if i < sz then
        (if gd ! nat i = 0 then 0
         else SqFindProd_loop gd sz (i + 1) (mod_step product (gd ! nat i)))
      else product)"
  by pat_completeness auto
termination
  by (relation "measure (\<lambda>(gd, sz, i, product). nat (sz - i))") auto

declare SqFindProd_loop.simps [simp del]

definition SqFindProd :: "int list \<Rightarrow> int \<Rightarrow> int" where
  "SqFindProd gd sz = SqFindProd_loop gd sz 0 1"

text \<open>
  The multiplications of a run of line 249 over the factors \<open>xs\<close>, from the running
  product \<open>p\<close>, stay inside the range of an int: none of them wraps around.
\<close>

fun no_overflow :: "int \<Rightarrow> int list \<Rightarrow> bool" where
  "no_overflow p [] = True"
| "no_overflow p (x # xs) =
     (INT_MIN \<le> p * x \<and> p * x \<le> INT_MAX \<and> no_overflow (mod_step p x) xs)"

subsection \<open>ThFindProd\<close>

text \<open>The loop of \<^verbatim>\<open>ThFindProd\<close> has an empty body; it returns the last value of \<open>i\<close>.\<close>

function ThFindProd_loop :: "int \<Rightarrow> int \<Rightarrow> int" where
  "ThFindProd_loop endi i = (if i \<le> endi then ThFindProd_loop endi (i + 1) else i)"
  by pat_completeness auto
termination
  by (relation "measure (\<lambda>(endi, i). nat (endi + 1 - i))") auto

declare ThFindProd_loop.simps [simp del]

definition ThFindProd :: "globals \<Rightarrow> row \<Rightarrow> globals" where
  "ThFindProd st param =
     (let threadNum = fst param;
          start = fst (snd param);
          endi = snd (snd param);
          st1 = st\<lparr>trace := trace st @ [PrintThreadStarted threadNum start endi]\<rparr>;
          i = ThFindProd_loop endi start
      in st1)"

subsection \<open>ThFindProdWithSemaphore\<close>

text \<open>
  The loop of lines 300 to 306, from the index \<open>i\<close> with the running \<open>localProd\<close>; its value
  is that of \<open>localProd\<close> after the loop. On a zero element the loop sets \<open>localProd\<close> to 0
  and breaks.
\<close>

function ThFindProdWithSemaphore_loop :: "int list \<Rightarrow> int \<Rightarrow> int \<Rightarrow> int \<Rightarrow> int" where
  "ThFindProdWithSemaphore_loop gd endi i localProd =
     (if i \<le> endi then
        (if gd ! nat i = 0 then 0
         else ThFindProdWithSemaphore_loop gd endi (i + 1) (mod_step localProd (gd ! nat i)))
      else localProd)"
  by pat_completeness auto
termination
  by (relation "measure (\<lambda>(gd, endi, i, localProd). nat (endi + 1 - i))") auto

declare ThFindProdWithSemaphore_loop.simps [simp del]

text \<open>
  What the worker does to the shared variables and the semaphores, in program order: the
  store of line 308 (slot and value), a \<^verbatim>\<open>sem_wait\<close> or a \<^verbatim>\<open>sem_post\<close> on one of the two
  semaphores, and the increment of line 314.
\<close>

datatype sem = Completed | Mutex

datatype action =
    StoreProd int int
  | SemWait sem
  | SemPost sem
  | IncDoneCount

text \<open>
  How a run of the worker ends: it returns, or it stays blocked in \<^verbatim>\<open>sem_wait(&mutex)\<close>;
  each with the globals at that point.
\<close>

datatype worker_result = Returned globals | Blocked globals

text \<open>
  The worker on its row of \<^verbatim>\<open>params\<close>, run from the state \<open>st\<close> without another thread in
  between: the actions it has performed, in order, and how the run ends. When \<open>mutex\<close> is 0
  the worker blocks at line 313, after the store of line 308 and before the increment.
\<close>

definition ThFindProdWithSemaphore :: "globals \<Rightarrow> row \<Rightarrow> action list \<times> worker_result" where
  "ThFindProdWithSemaphore st param =
     (let threadNum = fst param;
          start = fst (snd param);
          endi = snd (snd param);
          localProd = ThFindProdWithSemaphore_loop (gData st) endi start 1;
          st1 = st\<lparr>gThreadProd := (gThreadProd st)[nat threadNum := localProd]\<rparr>
      in if localProd = 0
         then ([StoreProd threadNum localProd, SemPost Completed],
               Returned (st1\<lparr>completed := sem_post (completed st1)\<rparr>))
         else (case sem_wait (mutex st1) of
                 None \<Rightarrow> ([StoreProd threadNum localProd, SemWait Mutex], Blocked st1)
               | Some m \<Rightarrow>
                   (let st2 = st1\<lparr>mutex := m\<rparr>;
                        st3 = st2\<lparr>gDoneThreadCount := add32 (gDoneThreadCount st2) 1\<rparr>;
                        isLast = (gDoneThreadCount st3 = gThreadCount st3);
                        st4 = (if isLast
                               then st3\<lparr>completed := sem_post (completed st3)\<rparr>
                               else st3)
                    in ([StoreProd threadNum localProd, SemWait Mutex, IncDoneCount]
                          @ (if isLast then [SemPost Completed] else [])
                          @ [SemPost Mutex],
                        Returned (st4\<lparr>mutex := sem_post (mutex st4)\<rparr>)))))"

subsection \<open>ComputeTotalProduct and InitSharedVars\<close>

function ComputeTotalProduct_loop :: "globals \<Rightarrow> int \<Rightarrow> int \<Rightarrow> int" where
  "ComputeTotalProduct_loop st i prd =
     (if i < gThreadCount st
      then ComputeTotalProduct_loop st (i + 1) (mod_step prd (gThreadProd st ! nat i))
      else prd)"
  by pat_completeness auto
termination
  by (relation "measure (\<lambda>(st, i, prd). nat (gThreadCount st - i))") auto

declare ComputeTotalProduct_loop.simps [simp del]

definition ComputeTotalProduct :: "globals \<Rightarrow> int" where
  "ComputeTotalProduct st = ComputeTotalProduct_loop st 0 1"

function InitSharedVars_loop :: "globals \<Rightarrow> int \<Rightarrow> globals" where
  "InitSharedVars_loop st i =
     (if i < gThreadCount st
      then InitSharedVars_loop
             (st\<lparr>gThreadDone := (gThreadDone st)[nat i := False],
                 gThreadProd := (gThreadProd st)[nat i := 1]\<rparr>) (i + 1)
      else st)"
  by pat_completeness auto
termination
  by (relation "measure (\<lambda>(st, i). nat (gThreadCount st - i))") auto

declare InitSharedVars_loop.simps [simp del]

definition InitSharedVars :: "globals \<Rightarrow> globals" where
  "InitSharedVars st = (InitSharedVars_loop st 0)\<lparr>gDoneThreadCount := 0\<rparr>"

subsection \<open>GetRand and GenerateInput\<close>

text \<open>
  \<^verbatim>\<open>rand\<close> belongs to the C library. \<open>GetRand\<close> takes the value \<open>r\<close> that its call of
  \<^verbatim>\<open>rand\<close> returned; \<open>GenerateInput\<close> takes the list \<open>rnd\<close> of the values that \<^verbatim>\<open>rand\<close>
  returns, in order, after \<^verbatim>\<open>srand(RANDOM_SEED)\<close>. The iteration \<open>i\<close> of the loop makes
  call number \<open>i\<close>.
\<close>

definition GetRand :: "int \<Rightarrow> int \<Rightarrow> int \<Rightarrow> int" where
  "GetRand r x y = add32 x (rem32 r (add32 (sub32 y x) 1))"

function GenerateInput_loop :: "int list \<Rightarrow> int \<Rightarrow> int \<Rightarrow> int list \<Rightarrow> int list" where
  "GenerateInput_loop rnd sz i gd =
     (if i < sz
      then GenerateInput_loop rnd sz (i + 1)
             (gd[nat i := GetRand (rnd ! nat i) 1 MAX_RANDOM_NUMBER])
      else gd)"
  by pat_completeness auto
termination
  by (relation "measure (\<lambda>(rnd, sz, i, gd). nat (sz - i))") auto

declare GenerateInput_loop.simps [simp del]

definition GenerateInput :: "int list \<Rightarrow> int list \<Rightarrow> int \<Rightarrow> int \<Rightarrow> int list" where
  "GenerateInput rnd gd sz indexForZero =
     (let gd1 = GenerateInput_loop rnd sz 0 gd
      in if indexForZero \<ge> 0 \<and> indexForZero < sz
         then gd1[nat indexForZero := 0]
         else gd1)"

subsection \<open>CalculateIndices\<close>

text \<open>
  The loop writes the row \<open>i\<close> of the caller's array \<open>indices\<close>: division number, start
  index, end index.
\<close>

function CalculateIndices_loop ::
  "int \<Rightarrow> int \<Rightarrow> int \<Rightarrow> int \<Rightarrow> int \<Rightarrow> row list \<Rightarrow> row list" where
  "CalculateIndices_loop thrdCnt divisionSize i remainder currentStart indices =
     (if i < thrdCnt then
        (let extra = (if remainder > 0 then 1 else 0);
             e = sub32 (add32 (add32 currentStart divisionSize) extra) 1
         in CalculateIndices_loop thrdCnt divisionSize (i + 1)
              (sub32 remainder extra) (add32 e 1)
              (indices[nat i := (i, currentStart, e)]))
      else indices)"
  by pat_completeness auto
termination
  by (relation "measure (\<lambda>(thrdCnt, divisionSize, i, remainder, currentStart, indices).
        nat (thrdCnt - i))") auto

declare CalculateIndices_loop.simps [simp del]

definition CalculateIndices :: "int \<Rightarrow> int \<Rightarrow> row list \<Rightarrow> row list" where
  "CalculateIndices arraySize thrdCnt indices =
     CalculateIndices_loop thrdCnt (div32 arraySize thrdCnt) 0
       (rem32 arraySize thrdCnt) 0 indices"

text \<open>The fields of a row, and the number of elements between its start and its end.\<close>

definition seg_start :: "row \<Rightarrow> int" where
  "seg_start r = fst (snd r)"

definition seg_end :: "row \<Rightarrow> int" where
  "seg_end r = snd (snd r)"

definition seg_size :: "row \<Rightarrow> int" where
  "seg_size r = seg_end r - seg_start r + 1"

subsection \<open>main\<close>

text \<open>
  Lines 97 to 103: one thread per division, each running \<^verbatim>\<open>ThFindProd\<close> on its row of
  \<^verbatim>\<open>params\<close>. The body of a thread is run when the thread is created: \<^verbatim>\<open>ThFindProd\<close>
  reads and writes no global variable, so the order in which the threads run changes
  nothing but the order of the lines they print.
\<close>

function main_create_threads :: "globals \<Rightarrow> row list \<Rightarrow> int \<Rightarrow> globals" where
  "main_create_threads st indices i =
     (if i < gThreadCount st then
        (let param = (i, seg_start (indices ! nat i), seg_end (indices ! nat i));
             st1 = st\<lparr>trace := trace st @ [PthreadCreate i]\<rparr>
         in main_create_threads (ThFindProd st1 param) indices (i + 1))
      else st)"
  by pat_completeness auto
termination
  by (relation "measure (\<lambda>(st, indices, i). nat (gThreadCount st - i))")
     (auto simp: ThFindProd_def Let_def)

declare main_create_threads.simps [simp del]

text \<open>Lines 105 to 107.\<close>

function main_join_threads :: "globals \<Rightarrow> int \<Rightarrow> globals" where
  "main_join_threads st i =
     (if i < gThreadCount st
      then main_join_threads (st\<lparr>trace := trace st @ [PthreadJoin i]\<rparr>) (i + 1)
      else st)"
  by pat_completeness auto
termination
  by (relation "measure (\<lambda>(st, i). nat (gThreadCount st - i))") auto

declare main_join_threads.simps [simp del]

text \<open>
  The globals when \<^verbatim>\<open>main\<close> starts. \<open>gData\<close> stands for the first \<open>arraySize\<close> cells of the
  array, the only ones the program touches; static storage starts as zeros.
\<close>

definition initial_globals :: "int \<Rightarrow> globals" where
  "initial_globals arraySize =
     \<lparr>gData = replicate (nat arraySize) 0,
      gThreadCount = 0,
      gDoneThreadCount = 0,
      gThreadProd = replicate (nat MAX_THREADS) 0,
      gThreadDone = replicate (nat MAX_THREADS) False,
      completed = 0,
      mutex = 0,
      trace = []\<rparr>"

text \<open>
  Lines 70 to 120, after the arguments have been accepted: the sequential round, then the
  round in which the parent joins every thread, then \<^verbatim>\<open>exit(0)\<close>. The statements after
  line 120 are never reached. The rows of the local array \<^verbatim>\<open>indices\<close> are written by
  \<open>CalculateIndices\<close> before they are read.
\<close>

definition main_run :: "int list \<Rightarrow> int \<Rightarrow> int \<Rightarrow> int \<Rightarrow> globals" where
  "main_run rnd arraySize thrdCnt indexForZero =
     (let st0 = (initial_globals arraySize)\<lparr>gThreadCount := thrdCnt\<rparr>;
          st1 = st0\<lparr>gData := GenerateInput rnd (gData st0) arraySize indexForZero\<rparr>;
          indices = CalculateIndices arraySize (gThreadCount st1)
                      (replicate (nat MAX_THREADS) (0, 0, 0));
          prd = SqFindProd (gData st1) arraySize;
          st2 = st1\<lparr>trace := trace st1 @ [PrintReport Sequential prd]\<rparr>;
          st3 = InitSharedVars st2;
          st4 = main_create_threads st3 indices 0;
          st5 = main_join_threads st4 0;
          prd2 = ComputeTotalProduct st5
      in st5\<lparr>trace := trace st5 @ [PrintReport JoinBarrier prd2]\<rparr>)"

text \<open>
  \<open>main\<close> on \<open>argc\<close> and the values \<open>a1\<close>, \<open>a2\<close>, \<open>a3\<close> that \<^verbatim>\<open>atoi\<close> returns for the three
  arguments. \<open>Inl\<close>: the message written to the standard error before \<^verbatim>\<open>exit(-1)\<close>.
  \<open>Inr\<close>: the events of a run that ends with \<^verbatim>\<open>exit(0)\<close>.
\<close>

definition main :: "int list \<Rightarrow> int \<Rightarrow> int \<Rightarrow> int \<Rightarrow> int \<Rightarrow> string + event list" where
  "main rnd argc a1 a2 a3 =
     (if argc \<noteq> 4 then Inl ''Invalid number of arguments!''
      else if a1 \<le> 0 \<or> a1 > MAX_SIZE then Inl ''Invalid Array Size''
      else if a2 > MAX_THREADS \<or> a2 \<le> 0 then Inl ''Invalid Thread Count''
      else if a3 < - 1 \<or> a3 \<ge> a1 then Inl ''Invalid index for zero!''
      else Inr (trace (main_run rnd a1 a2 a3)))"

text \<open>The threads a run has created, and the report lines it has printed.\<close>

fun created_threads :: "event list \<Rightarrow> int list" where
  "created_threads [] = []"
| "created_threads (PthreadCreate i # es) = i # created_threads es"
| "created_threads (e # es) = created_threads es"

fun reports :: "event list \<Rightarrow> (mode \<times> int) list" where
  "reports [] = []"
| "reports (PrintReport m p # es) = (m, p) # reports es"
| "reports (e # es) = reports es"

text \<open>The events of a run: none when the arguments are rejected.\<close>

definition run_events :: "string + event list \<Rightarrow> event list" where
  "run_events r = (case r of Inl msg \<Rightarrow> [] | Inr es \<Rightarrow> es)"

section \<open>Properties\<close>

subsection \<open>Remainders and products without overflow\<close>

lemma smod_mult_left:
  fixes a b m :: int
  assumes m: "0 < m"
  shows "((a smod m) * b) smod m = (a * b) smod m"
proof -
  define r where "r = \<bar>a\<bar> mod m"
  have am: "\<bar>m\<bar> = m" using m by simp
  have e1: "a smod m = sgn a * r"
    by (simp only: smod_int_alt_def am r_def)
  have rhs: "(a * b) smod m = sgn a * sgn b * ((\<bar>a\<bar> * \<bar>b\<bar>) mod m)"
    by (simp only: smod_int_alt_def am sgn_mult abs_mult)
  have r0: "0 \<le> r" using m by (simp add: r_def)
  show ?thesis
  proof (cases "r = 0")
    case True
    then have "m dvd \<bar>a\<bar>" by (simp add: r_def dvd_eq_mod_eq_0)
    then have "(\<bar>a\<bar> * \<bar>b\<bar>) mod m = 0" by simp
    with True show ?thesis by (simp only: e1 rhs) simp
  next
    case False
    with r0 have r: "0 < r" by linarith
    then have a0: "a \<noteq> 0" by (auto simp: r_def)
    have s: "sgn (sgn a * r * b) = sgn a * sgn b"
      using r by (simp add: sgn_mult)
    have ab: "\<bar>sgn a * r * b\<bar> = r * \<bar>b\<bar>"
      using r a0 by (simp add: abs_mult)
    have md: "(r * \<bar>b\<bar>) mod m = (\<bar>a\<bar> * \<bar>b\<bar>) mod m"
      by (simp add: r_def mod_mult_left_eq)
    have "(a smod m * b) smod m = sgn (sgn a * r * b) * (\<bar>sgn a * r * b\<bar> mod m)"
      by (simp only: smod_int_alt_def am r_def)
    also have "\<dots> = sgn a * sgn b * ((\<bar>a\<bar> * \<bar>b\<bar>) mod m)"
      by (simp only: s ab md)
    finally show ?thesis by (simp only: rhs)
  qed
qed

lemma wrap32_id: "INT_MIN \<le> x \<Longrightarrow> x \<le> INT_MAX \<Longrightarrow> wrap32 x = x"
  by (simp add: wrap32_def INT_MIN_def INT_MAX_def)

lemma mod_step_exact:
  "INT_MIN \<le> p * x \<Longrightarrow> p * x \<le> INT_MAX \<Longrightarrow> mod_step p x = (p * x) smod NUM_LIMIT"
  by (simp add: mod_step_def rem32_def mul32_def wrap32_id)

lemma smod_smod:
  fixes a m :: int
  shows "0 < m \<Longrightarrow> (a smod m) smod m = a smod m"
  using smod_mult_left [of m a 1] by simp

lemma foldl_mod_step:
  "no_overflow p xs \<Longrightarrow> p smod NUM_LIMIT = p \<Longrightarrow>
   foldl mod_step p xs = (p * prod_list xs) smod NUM_LIMIT"
proof (induction xs arbitrary: p)
  case Nil
  then show ?case by simp
next
  case (Cons x xs)
  have M: "0 < NUM_LIMIT" by (simp add: NUM_LIMIT_def)
  from Cons.prems have st: "mod_step p x = (p * x) smod NUM_LIMIT"
    by (simp add: mod_step_exact)
  have idem: "mod_step p x smod NUM_LIMIT = mod_step p x"
    unfolding st by (rule smod_smod [OF M])
  from Cons.prems idem
  have "foldl mod_step (mod_step p x) xs = (mod_step p x * prod_list xs) smod NUM_LIMIT"
    by (simp add: Cons.IH)
  also have "\<dots> = (p * x * prod_list xs) smod NUM_LIMIT"
    unfolding st by (rule smod_mult_left [OF M])
  finally show ?case by (simp add: mult.assoc)
qed

lemma drop_take_step:
  "0 \<le> i \<Longrightarrow> i < sz \<Longrightarrow> sz \<le> int (length gd) \<Longrightarrow>
   drop (nat i) (take (nat sz) gd) = gd ! nat i # drop (nat (i + 1)) (take (nat sz) gd)"
proof -
  assume a: "0 \<le> i" "i < sz" "sz \<le> int (length gd)"
  then have lt: "nat i < length (take (nat sz) gd)" by simp
  have s: "nat (i + 1) = Suc (nat i)" using a by simp
  have n: "take (nat sz) gd ! nat i = gd ! nat i" using a by simp
  show ?thesis
    using Cons_nth_drop_Suc [OF lt] by (simp only: s n)
qed

lemma SqFindProd_loop_no_overflow:
  "no_overflow p (drop (nat i) (take (nat sz) gd)) \<Longrightarrow> p smod NUM_LIMIT = p \<Longrightarrow>
   0 \<le> i \<Longrightarrow> sz \<le> int (length gd) \<Longrightarrow>
   SqFindProd_loop gd sz i p = (p * prod_list (drop (nat i) (take (nat sz) gd))) smod NUM_LIMIT"
proof (induction gd sz i p rule: SqFindProd_loop.induct)
  case (1 gd sz i product)
  have M: "0 < NUM_LIMIT" by (simp add: NUM_LIMIT_def)
  show ?case
  proof (cases "i < sz")
    case False
    then have "drop (nat i) (take (nat sz) gd) = []" by simp
    with False "1.prems" show ?thesis by (simp add: SqFindProd_loop.simps [of gd sz i])
  next
    case True
    note dr = drop_take_step [OF "1.prems"(3) True "1.prems"(4)]
    show ?thesis
    proof (cases "gd ! nat i = 0")
      case True
      with \<open>i < sz\<close> show ?thesis
        by (simp add: SqFindProd_loop.simps [of gd sz i] dr)
    next
      case False
      from "1.prems"(1) have ov: "INT_MIN \<le> product * gd ! nat i" "product * gd ! nat i \<le> INT_MAX"
        and rest: "no_overflow (mod_step product (gd ! nat i)) (drop (nat (i + 1)) (take (nat sz) gd))"
        by (simp_all add: dr)
      have st: "mod_step product (gd ! nat i) = (product * gd ! nat i) smod NUM_LIMIT"
        using ov by (rule mod_step_exact)
      have idem: "mod_step product (gd ! nat i) smod NUM_LIMIT = mod_step product (gd ! nat i)"
        unfolding st by (rule smod_smod [OF M])
      have "SqFindProd_loop gd sz i product =
            SqFindProd_loop gd sz (i + 1) (mod_step product (gd ! nat i))"
        using False \<open>i < sz\<close> by (simp add: SqFindProd_loop.simps [of gd sz i])
      also have "\<dots> = (mod_step product (gd ! nat i) *
            prod_list (drop (nat (i + 1)) (take (nat sz) gd))) smod NUM_LIMIT"
        using "1.IH" [OF \<open>i < sz\<close> False rest idem] "1.prems"(3,4) by simp
      also have "\<dots> = (product * gd ! nat i *
            prod_list (drop (nat (i + 1)) (take (nat sz) gd))) smod NUM_LIMIT"
        unfolding st by (rule smod_mult_left [OF M])
      finally show ?thesis by (simp add: dr mult.assoc)
    qed
  qed
qed

lemma mod_step_bounds:
  assumes "0 \<le> p" "p \<le> NUM_LIMIT - 1" "0 \<le> x" "x * (NUM_LIMIT - 1) \<le> INT_MAX"
  shows "INT_MIN \<le> p * x" "p * x \<le> INT_MAX"
    "mod_step p x = (p * x) mod NUM_LIMIT" "0 \<le> mod_step p x" "mod_step p x \<le> NUM_LIMIT - 1"
proof -
  have nn: "0 \<le> p * x" using assms by simp
  then show lo: "INT_MIN \<le> p * x" by (simp add: INT_MIN_def)
  have "p * x \<le> (NUM_LIMIT - 1) * x" using assms by (intro mult_right_mono) auto
  with assms(4) show hi: "p * x \<le> INT_MAX" by (simp add: mult.commute)
  show eq: "mod_step p x = (p * x) mod NUM_LIMIT"
    using nn by (simp add: mod_step_exact [OF lo hi] smod_mod_positive NUM_LIMIT_def)
  show "0 \<le> mod_step p x" unfolding eq by (simp add: NUM_LIMIT_def)
  have "(p * x) mod NUM_LIMIT < NUM_LIMIT" by (simp add: NUM_LIMIT_def)
  then show "mod_step p x \<le> NUM_LIMIT - 1" unfolding eq by simp
qed

lemma bounded_no_overflow:
  "0 \<le> p \<Longrightarrow> p \<le> NUM_LIMIT - 1 \<Longrightarrow>
   \<forall>x \<in> set xs. 0 \<le> x \<and> x * (NUM_LIMIT - 1) \<le> INT_MAX \<Longrightarrow> no_overflow p xs"
proof (induction xs arbitrary: p)
  case Nil
  show ?case by simp
next
  case (Cons x xs)
  from Cons.prems have x: "0 \<le> x" "x * (NUM_LIMIT - 1) \<le> INT_MAX" by simp_all
  note b = mod_step_bounds [OF Cons.prems(1,2) x]
  from Cons.prems(3) have "\<forall>y \<in> set xs. 0 \<le> y \<and> y * (NUM_LIMIT - 1) \<le> INT_MAX" by simp
  then have "no_overflow (mod_step p x) xs" using b(4,5) by (intro Cons.IH)
  with b(1,2) show ?case by simp
qed

lemma SqFindProd_loop_zero:
  "0 \<le> i \<Longrightarrow> i \<le> k \<Longrightarrow> k < sz \<Longrightarrow> gd ! nat k = 0 \<Longrightarrow> SqFindProd_loop gd sz i p = 0"
proof (induction gd sz i p rule: SqFindProd_loop.induct)
  case (1 gd sz i product)
  show ?case
  proof (cases "gd ! nat i = 0")
    case True
    with "1.prems" show ?thesis by (simp add: SqFindProd_loop.simps [of gd sz i])
  next
    case False
    with "1.prems" have "i \<noteq> k" by auto
    with "1.prems" have lt: "i < sz" "i + 1 \<le> k" "0 \<le> i + 1" by simp_all
    from "1.IH" [OF lt(1) False lt(3,2) "1.prems"(3,4)] lt(1) False
    show ?thesis by (simp add: SqFindProd_loop.simps [of gd sz i])
  qed
qed

lemma SqFindProd_eq_prod_mod:
  assumes "sz \<le> int (length gd)"
    and "\<forall>x \<in> set (take (nat sz) gd). 0 \<le> x \<and> x * (NUM_LIMIT - 1) \<le> INT_MAX"
  shows "SqFindProd gd sz = prod_list (take (nat sz) gd) mod NUM_LIMIT"
proof -
  let ?xs = "take (nat sz) gd"
  have no: "no_overflow 1 ?xs"
    using assms(2) by (intro bounded_no_overflow) (simp_all add: NUM_LIMIT_def)
  have one: "(1::int) smod NUM_LIMIT = 1" by (simp add: NUM_LIMIT_def smod_mod_positive)
  have nn: "0 \<le> prod_list ?xs" using assms(2) by (intro prod_list_nonneg) simp
  have "SqFindProd gd sz = (1 * prod_list (drop (nat 0) ?xs)) smod NUM_LIMIT"
    unfolding SqFindProd_def using assms(1) no one
    by (intro SqFindProd_loop_no_overflow) simp_all
  then show ?thesis
    using nn by (simp add: smod_mod_positive NUM_LIMIT_def)
qed

text \<open>
  Claim C6, as amended: for every array whose first \<open>size\<close> elements are non-negative and at
  most \<open>INT_MAX div (NUM_LIMIT - 1)\<close> = 215351 (every generated element is at most 3000),
  and every size within the array, \<open>SqFindProd\<close> returns the product of these elements
  modulo \<open>NUM_LIMIT\<close>. For every array, if the element at an index \<open>k\<close> below \<open>size\<close> is 0,
  the result is 0 on every array that has the same elements up to \<open>k\<close>, whatever follows,
  also when nothing follows: the elements after the zero are not read.
\<close>

theorem SqFindProd_bounded_elements:
  "(sz \<le> int (length gd) \<and>
    (\<forall>x \<in> set (take (nat sz) gd). 0 \<le> x \<and> x * (NUM_LIMIT - 1) \<le> INT_MAX)
      \<longrightarrow> SqFindProd gd sz = prod_list (take (nat sz) gd) mod NUM_LIMIT) \<and>
   (0 \<le> k \<and> k < sz \<and> k < int (length gd) \<and> gd ! nat k = 0 \<and>
    take (nat k + 1) gd' = take (nat k + 1) gd
      \<longrightarrow> SqFindProd gd' sz = 0)"
proof (intro conjI impI)
  assume "sz \<le> int (length gd) \<and>
    (\<forall>x \<in> set (take (nat sz) gd). 0 \<le> x \<and> x * (NUM_LIMIT - 1) \<le> INT_MAX)"
  then show "SqFindProd gd sz = prod_list (take (nat sz) gd) mod NUM_LIMIT"
    by (intro SqFindProd_eq_prod_mod) simp_all
next
  assume b: "0 \<le> k \<and> k < sz \<and> k < int (length gd) \<and> gd ! nat k = 0 \<and>
    take (nat k + 1) gd' = take (nat k + 1) gd"
  then have "take (nat k + 1) gd' ! nat k = take (nat k + 1) gd ! nat k" by simp
  then have "gd' ! nat k = 0" using b by simp
  with b show "SqFindProd gd' sz = 0"
    unfolding SqFindProd_def by (intro SqFindProd_loop_zero [of 0 k]) simp_all
qed

theorem SqFindProd_bounded_elements_witness:
  "SqFindProd [7, 3, 0, 2] 4 = prod_list (take (nat 4) [7, 3, 0, 2]) mod NUM_LIMIT \<and>
   SqFindProd [7, 3, 0] 4 = 0"
  using SqFindProd_bounded_elements [of 4 "[7, 3, 0, 2]" 2 "[7, 3, 0]"]
  by (simp add: NUM_LIMIT_def INT_MAX_def)

text \<open>
  The claim as written, for every array of non-negative elements, fails on the array
  \<open>[2, 1073741825]\<close>: the multiplication \<open>2 * 1073741825\<close> exceeds \<open>INT_MAX\<close> and wraps
  around to \<open>-2147483646\<close>, whose remainder is \<open>-7529\<close>, and the product modulo 9973 is 7533.
\<close>

theorem SqFindProd_large_element_counterexample:
  "SqFindProd [2, 1073741825] 2 \<noteq> prod_list [2, 1073741825] mod NUM_LIMIT"
  by code_simp

text \<open>
  Claim C9: for every sequence of factors on which no multiplication of the running product
  leaves the range of an int, reducing modulo \<open>NUM_LIMIT\<close> after every multiplication
  (line 249, folded over the factors from 1, and \<open>SqFindProd\<close> itself) gives the same value
  as multiplying all the factors and reducing once at the end.
\<close>

theorem per_step_reduction_eq_final_reduction:
  assumes "no_overflow 1 xs"
  shows "foldl mod_step 1 xs = rem32 (prod_list xs) NUM_LIMIT \<and>
         SqFindProd xs (int (length xs)) = rem32 (prod_list xs) NUM_LIMIT"
proof -
  have one: "(1::int) smod NUM_LIMIT = 1" by (simp add: NUM_LIMIT_def smod_mod_positive)
  have "SqFindProd xs (int (length xs)) = (1 * prod_list (drop (nat 0) (take (nat (int (length xs))) xs))) smod NUM_LIMIT"
    unfolding SqFindProd_def using assms one
    by (intro SqFindProd_loop_no_overflow) simp_all
  then show ?thesis
    using foldl_mod_step [OF assms one] by (simp add: rem32_def)
qed

theorem per_step_reduction_eq_final_reduction_witness:
  "no_overflow 1 [7, 3, 5, 2, 9, 4, 6, 8, 1, 5] \<and>
   foldl mod_step 1 [7, 3, 5, 2, 9, 4, 6, 8, 1, 5] = 9287 \<and>
   SqFindProd [7, 3, 5, 2, 9, 4, 6, 8, 1, 5] 10 = 9287"
proof -
  have h: "no_overflow 1 [7, 3, 5, 2, 9, 4, 6, 8, 1, 5]" by code_simp
  show ?thesis
    using h per_step_reduction_eq_final_reduction [OF h]
    by (simp add: rem32_def NUM_LIMIT_def)
qed

subsection \<open>The segments of CalculateIndices\<close>

lemma CalculateIndices_loop_rows:
  "0 \<le> i \<Longrightarrow> 0 \<le> q \<Longrightarrow> 0 \<le> rm \<Longrightarrow> 0 \<le> cs \<Longrightarrow>
   cs + (T - i) * q + rm \<le> INT_MAX \<Longrightarrow> T \<le> int (length ind) \<Longrightarrow>
   length (CalculateIndices_loop T q i rm cs ind) = length ind \<and>
   (\<forall>j. 0 \<le> j \<and> j < int (length ind) \<longrightarrow>
      CalculateIndices_loop T q i rm cs ind ! nat j =
        (if i \<le> j \<and> j < T
         then (j, cs + (j - i) * q + min (j - i) rm,
                  cs + (j - i) * q + min (j - i) rm + q + (if j - i < rm then 1 else 0) - 1)
         else ind ! nat j))"
proof (induction T q i rm cs ind rule: CalculateIndices_loop.induct)
  case (1 T q i rm cs ind)
  show ?case
  proof (cases "i < T")
    case False
    then show ?thesis by (auto simp: CalculateIndices_loop.simps [of T q i rm cs ind])
  next
    case True
    define extra :: int where "extra = (if rm > 0 then 1 else 0)"
    define e where "e = sub32 (add32 (add32 cs q) extra) 1"
    have ex: "0 \<le> extra" "extra \<le> 1" "extra \<le> rm"
      using "1.prems"(3) by (auto simp: extra_def)
    have "1 * q \<le> (T - i) * q" using True "1.prems"(2)
      by (intro mult_right_mono) simp_all
    then have fit: "cs + q + extra \<le> INT_MAX" and rmb: "rm \<le> INT_MAX"
      using ex "1.prems"(2,4,5) by linarith+
    have a1: "add32 cs q = cs + q" unfolding add32_def
      using fit ex "1.prems" by (intro wrap32_id) (simp_all add: INT_MIN_def)
    have a2: "add32 (cs + q) extra = cs + q + extra" unfolding add32_def
      using fit ex "1.prems" by (intro wrap32_id) (simp_all add: INT_MIN_def)
    have e: "e = cs + q + extra - 1" unfolding e_def a1 a2 sub32_def
      using fit ex "1.prems" by (intro wrap32_id) (simp_all add: INT_MIN_def INT_MAX_def)
    have e1: "add32 e 1 = cs + q + extra" unfolding add32_def e
      using fit ex "1.prems" by (simp add: wrap32_id INT_MIN_def)
    have r1: "sub32 rm extra = rm - extra" unfolding sub32_def
      using rmb ex "1.prems"(3) by (intro wrap32_id) (simp_all add: INT_MIN_def INT_MAX_def)
    have step: "CalculateIndices_loop T q i rm cs ind =
          CalculateIndices_loop T q (i + 1) (rm - extra) (cs + q + extra)
            (ind[nat i := (i, cs, e)])"
      using True
      by (simp add: CalculateIndices_loop.simps [of T q i rm cs ind] Let_def
            extra_def [symmetric] e_def [symmetric] e1 r1)
    have inv: "cs + q + extra + (T - (i + 1)) * q + (rm - extra) \<le> INT_MAX"
      using "1.prems"(5) by (simp add: algebra_simps)
    have IH: "length (CalculateIndices_loop T q (i + 1) (rm - extra) (cs + q + extra)
                (ind[nat i := (i, cs, e)])) = length (ind[nat i := (i, cs, e)]) \<and>
      (\<forall>j. 0 \<le> j \<and> j < int (length (ind[nat i := (i, cs, e)])) \<longrightarrow>
        CalculateIndices_loop T q (i + 1) (rm - extra) (cs + q + extra)
            (ind[nat i := (i, cs, e)]) ! nat j =
        (if i + 1 \<le> j \<and> j < T
         then (j, cs + q + extra + (j - (i + 1)) * q + min (j - (i + 1)) (rm - extra),
                  cs + q + extra + (j - (i + 1)) * q + min (j - (i + 1)) (rm - extra) + q
                    + (if j - (i + 1) < rm - extra then 1 else 0) - 1)
         else ind[nat i := (i, cs, e)] ! nat j))"
      using "1.IH" [OF True extra_def e_def, unfolded e1 r1] "1.prems" ex fit inv
      by simp
    have IHj: "CalculateIndices_loop T q i rm cs ind ! nat j =
        (if i + 1 \<le> j \<and> j < T
         then (j, cs + q + extra + (j - (i + 1)) * q + min (j - (i + 1)) (rm - extra),
                  cs + q + extra + (j - (i + 1)) * q + min (j - (i + 1)) (rm - extra) + q
                    + (if j - (i + 1) < rm - extra then 1 else 0) - 1)
         else ind[nat i := (i, cs, e)] ! nat j)"
      if "0 \<le> j" "j < int (length ind)" for j
      using IH that by (simp add: step)
    show ?thesis
    proof (intro conjI allI impI)
      show "length (CalculateIndices_loop T q i rm cs ind) = length ind"
        using IH by (simp add: step)
    next
      fix j assume j: "0 \<le> j \<and> j < int (length ind)"
      note eq = IHj [of j, OF conjunct1 [OF j] conjunct2 [OF j]]
      show "CalculateIndices_loop T q i rm cs ind ! nat j =
        (if i \<le> j \<and> j < T
         then (j, cs + (j - i) * q + min (j - i) rm,
                  cs + (j - i) * q + min (j - i) rm + q + (if j - i < rm then 1 else 0) - 1)
         else ind ! nat j)"
      proof (cases "j = i")
        case True
        have ni: "nat i < length ind" using j True by linarith
        have "\<not> (i + 1 \<le> j \<and> j < T)" using True by simp
        then have "CalculateIndices_loop T q i rm cs ind ! nat j = ind[nat i := (i, cs, e)] ! nat j"
          using eq by (simp only: if_False)
        also have "\<dots> = (i, cs, e)" using ni True by simp
        finally show ?thesis using True \<open>i < T\<close> "1.prems"(3)
          by (simp add: e extra_def)
      next
        case False
        have ne: "nat i \<noteq> nat j" using False j "1.prems"(1) by linarith
        show ?thesis
        proof (cases "i + 1 \<le> j \<and> j < T")
          case True
          then have ij: "i \<le> j \<and> j < T" by simp
          have m: "extra + min (j - (i + 1)) (rm - extra) = min (j - i) rm"
            using True ex "1.prems"(3) by (auto simp: extra_def min_def)
          have c: "(j - (i + 1) < rm - extra) = (j - i < rm)"
            using True ex "1.prems"(3) by (auto simp: extra_def)
          have s: "cs + q + extra + (j - (i + 1)) * q + min (j - (i + 1)) (rm - extra)
                   = cs + (j - i) * q + min (j - i) rm"
            using m by (simp add: algebra_simps)
          have "CalculateIndices_loop T q i rm cs ind ! nat j =
              (j, cs + q + extra + (j - (i + 1)) * q + min (j - (i + 1)) (rm - extra),
                  cs + q + extra + (j - (i + 1)) * q + min (j - (i + 1)) (rm - extra) + q
                    + (if j - (i + 1) < rm - extra then 1 else 0) - 1)"
            using eq True by (simp only: if_True simp_thms)
          then show ?thesis
            using ij by (simp only: s c if_True simp_thms)
        next
          case F: False
          with False have nc: "\<not> (i \<le> j \<and> j < T)" by auto
          have "CalculateIndices_loop T q i rm cs ind ! nat j =
              ind[nat i := (i, cs, e)] ! nat j"
            using eq by (simp only: F if_False)
          also have "\<dots> = ind ! nat j" using ne by simp
          finally show ?thesis by (simp only: nc if_False)
        qed
      qed
    qed
  qed
qed

lemma CalculateIndices_rows:
  assumes T: "1 \<le> T" and N: "0 \<le> N" "N \<le> INT_MAX" and len: "T \<le> int (length ind)"
  shows "length (CalculateIndices N T ind) = length ind"
    and "0 \<le> j \<Longrightarrow> j < T \<Longrightarrow> CalculateIndices N T ind ! nat j =
           (j, j * (N div T) + min j (N mod T),
               j * (N div T) + min j (N mod T) + N div T + (if j < N mod T then 1 else 0) - 1)"
proof -
  have sd: "N sdiv T = N div T"
    using T N(1) by (cases "N = 0") (simp_all add: signed_divide_int_def)
  have q0: "0 \<le> N div T" using T N(1) by (simp add: pos_imp_zdiv_nonneg_iff)
  have "N div T \<le> N" using T N(1) by (simp add: zdiv_mono2 [of N 1 T, simplified])
  then have d: "div32 N T = N div T"
    unfolding div32_def sd using q0 N(2) by (intro wrap32_id) (simp_all add: INT_MIN_def)
  have r: "rem32 N T = N mod T"
    using T N(1) by (simp add: rem32_def smod_mod_positive)
  have r0: "0 \<le> N mod T" using T by simp
  have fit: "0 + (T - 0) * (N div T) + N mod T \<le> INT_MAX"
    using N(2) by (simp add: mult.commute)
  note L = CalculateIndices_loop_rows [of 0 "N div T" "N mod T" 0 T ind, OF _ q0 r0 _ fit len,
      simplified, folded d r, folded CalculateIndices_def]
  show "length (CalculateIndices N T ind) = length ind" using L by simp
  assume j: "0 \<le> j" "j < T"
  then have "j < int (length ind)" using len by simp
  with L j show "CalculateIndices N T ind ! nat j =
           (j, j * (N div T) + min j (N mod T),
               j * (N div T) + min j (N mod T) + N div T + (if j < N mod T then 1 else 0) - 1)"
    unfolding d r by simp
qed

lemma boundary_mono:
  fixes q r :: int
  assumes "0 \<le> q" "a \<le> b"
  shows "a * q + min a r \<le> b * q + min b r"
proof -
  have "a * q \<le> b * q" using assms by (intro mult_right_mono)
  moreover have "min a r \<le> min b r" using assms(2) by simp
  ultimately show ?thesis by linarith
qed

lemma boundary_cover:
  fixes s :: "int \<Rightarrow> int"
  assumes mono: "\<And>a b. a \<le> b \<Longrightarrow> s a \<le> s b" and s0: "s 0 = 0"
    and T: "0 \<le> T" and k: "0 \<le> k" "k < s T"
  shows "\<exists>!i. 0 \<le> i \<and> i < T \<and> s i \<le> k \<and> k < s (i + 1)"
proof -
  have ex: "k < s n \<longrightarrow> (\<exists>i. 0 \<le> i \<and> i < n \<and> s i \<le> k \<and> k < s (i + 1))" if "0 \<le> n" for n
    using that
  proof (induction n rule: int_ge_induct)
    case base
    show ?case using s0 k by simp
  next
    case (step n)
    show ?case
    proof
      assume kn: "k < s (n + 1)"
      show "\<exists>i. 0 \<le> i \<and> i < n + 1 \<and> s i \<le> k \<and> k < s (i + 1)"
      proof (cases "k < s n")
        case True
        with step.IH obtain i where "0 \<le> i \<and> i < n \<and> s i \<le> k \<and> k < s (i + 1)" by blast
        then have "0 \<le> i \<and> i < n + 1 \<and> s i \<le> k \<and> k < s (i + 1)" by simp
        then show ?thesis ..
      next
        case False
        with kn step.hyps have "0 \<le> n \<and> n < n + 1 \<and> s n \<le> k \<and> k < s (n + 1)" by simp
        then show ?thesis ..
      qed
    qed
  qed
  show ?thesis
  proof (rule ex_ex1I)
    show "\<exists>i. 0 \<le> i \<and> i < T \<and> s i \<le> k \<and> k < s (i + 1)"
      using ex [OF T] k(2) by simp
  next
    fix i j
    assume i: "0 \<le> i \<and> i < T \<and> s i \<le> k \<and> k < s (i + 1)"
      and j: "0 \<le> j \<and> j < T \<and> s j \<le> k \<and> k < s (j + 1)"
    show "i = j"
    proof (rule ccontr)
      assume "i \<noteq> j"
      then consider "i + 1 \<le> j" | "j + 1 \<le> i" by linarith
      then show False
      proof cases
        case 1
        from mono [OF 1] i j show False by linarith
      next
        case 2
        from mono [OF 2] i j show False by linarith
      qed
    qed
  qed
qed

text \<open>
  Claim C5: for every array length \<open>N\<close> and thread count \<open>T\<close> with \<open>1 \<le> T \<le> N\<close>, and an array
  \<open>indices\<close> of at least \<open>T\<close> rows, \<open>CalculateIndices\<close> writes \<open>T\<close> segments: row \<open>i\<close> carries
  the number \<open>i\<close> and has \<open>N div T\<close> elements, one more for the first \<open>N mod T\<close> rows; the
  first segment starts at 0, each next one starts right after the previous one ends, the
  last one ends at \<open>N - 1\<close>; every index of \<open>[0, N)\<close> lies in exactly one segment; and two
  segment sizes differ by at most 1.
\<close>

theorem CalculateIndices_partition:
  assumes "1 \<le> T" "T \<le> N" "N \<le> INT_MAX" "T \<le> int (length ind)"
  shows
    "length (CalculateIndices N T ind) = length ind \<and>
     (\<forall>i. 0 \<le> i \<and> i < T \<longrightarrow>
        fst (CalculateIndices N T ind ! nat i) = i \<and>
        seg_size (CalculateIndices N T ind ! nat i) = N div T + (if i < N mod T then 1 else 0)) \<and>
     seg_start (CalculateIndices N T ind ! 0) = 0 \<and>
     (\<forall>i. 0 \<le> i \<and> i + 1 < T \<longrightarrow>
        seg_start (CalculateIndices N T ind ! nat (i + 1)) =
        seg_end (CalculateIndices N T ind ! nat i) + 1) \<and>
     seg_end (CalculateIndices N T ind ! nat (T - 1)) = N - 1 \<and>
     (\<forall>k. 0 \<le> k \<and> k < N \<longrightarrow>
        (\<exists>!i. 0 \<le> i \<and> i < T \<and>
           seg_start (CalculateIndices N T ind ! nat i) \<le> k \<and>
           k \<le> seg_end (CalculateIndices N T ind ! nat i))) \<and>
     (\<forall>i j. 0 \<le> i \<and> i < T \<and> 0 \<le> j \<and> j < T \<longrightarrow>
        \<bar>seg_size (CalculateIndices N T ind ! nat i) -
         seg_size (CalculateIndices N T ind ! nat j)\<bar> \<le> 1)"
proof -
  define q where "q = N div T"
  define r where "r = N mod T"
  define s where "s i = i * q + min i r" for i
  have N0: "0 \<le> N" using assms(1,2) by simp
  have q0: "0 \<le> q" using assms(1) N0 by (simp add: q_def pos_imp_zdiv_nonneg_iff)
  have r0: "0 \<le> r" "r < T" using assms(1) by (simp_all add: r_def)
  have row: "CalculateIndices N T ind ! nat i = (i, s i, s i + q + (if i < r then 1 else 0) - 1)"
    if "0 \<le> i" "i < T" for i
    using CalculateIndices_rows(2) [OF assms(1) N0 assms(3,4) that]
    by (simp add: s_def q_def r_def)
  have nxt: "s i + q + (if i < r then 1 else 0) = s (i + 1)" if "0 \<le> i" for i
    using that r0 by (auto simp: s_def min_def algebra_simps)
  have st: "seg_start (CalculateIndices N T ind ! nat i) = s i"
    and en: "seg_end (CalculateIndices N T ind ! nat i) = s (i + 1) - 1"
    and sz: "seg_size (CalculateIndices N T ind ! nat i) = q + (if i < r then 1 else 0)"
    if "0 \<le> i" "i < T" for i
    using row [OF that] nxt [OF that(1)]
    by (simp_all add: seg_start_def seg_end_def seg_size_def)
  have mono: "s a \<le> s b" if "a \<le> b" for a b
    unfolding s_def using q0 that by (rule boundary_mono)
  have s0: "s 0 = 0" using r0 by (simp add: s_def)
  have sT: "s T = N" using r0 by (simp add: s_def q_def r_def mult.commute)
  have T0: "0 \<le> T" using assms(1) by simp
  have c1: "length (CalculateIndices N T ind) = length ind"
    using CalculateIndices_rows(1) [OF assms(1) N0 assms(3,4)] .
  have c2: "\<forall>i. 0 \<le> i \<and> i < T \<longrightarrow>
        fst (CalculateIndices N T ind ! nat i) = i \<and>
        seg_size (CalculateIndices N T ind ! nat i) = N div T + (if i < N mod T then 1 else 0)"
    using row sz by (simp add: q_def r_def)
  have c3: "seg_start (CalculateIndices N T ind ! 0) = 0"
    using st [of 0] assms(1) s0 by simp
  have c4: "\<forall>i. 0 \<le> i \<and> i + 1 < T \<longrightarrow>
        seg_start (CalculateIndices N T ind ! nat (i + 1)) =
        seg_end (CalculateIndices N T ind ! nat i) + 1"
  proof (intro allI impI)
    fix i assume i: "0 \<le> i \<and> i + 1 < T"
    then have "seg_start (CalculateIndices N T ind ! nat (i + 1)) = s (i + 1)"
      by (intro st) simp_all
    moreover from i have "seg_end (CalculateIndices N T ind ! nat i) = s (i + 1) - 1"
      by (intro en) simp_all
    ultimately show "seg_start (CalculateIndices N T ind ! nat (i + 1)) =
        seg_end (CalculateIndices N T ind ! nat i) + 1" by simp
  qed
  have c5: "seg_end (CalculateIndices N T ind ! nat (T - 1)) = N - 1"
    using en [of "T - 1"] assms(1) sT by simp
  have c6: "\<forall>k. 0 \<le> k \<and> k < N \<longrightarrow>
        (\<exists>!i. 0 \<le> i \<and> i < T \<and>
           seg_start (CalculateIndices N T ind ! nat i) \<le> k \<and>
           k \<le> seg_end (CalculateIndices N T ind ! nat i))"
  proof (intro allI impI)
    fix k assume k: "0 \<le> k \<and> k < N"
    have eq: "(0 \<le> i \<and> i < T \<and> seg_start (CalculateIndices N T ind ! nat i) \<le> k \<and>
           k \<le> seg_end (CalculateIndices N T ind ! nat i)) =
          (0 \<le> i \<and> i < T \<and> s i \<le> k \<and> k < s (i + 1))" for i
      using st [of i] en [of i] by auto
    from k have "\<exists>!i. 0 \<le> i \<and> i < T \<and> s i \<le> k \<and> k < s (i + 1)"
      by (intro boundary_cover mono s0 T0) (simp_all add: sT)
    then show "\<exists>!i. 0 \<le> i \<and> i < T \<and>
           seg_start (CalculateIndices N T ind ! nat i) \<le> k \<and>
           k \<le> seg_end (CalculateIndices N T ind ! nat i)"
      by (simp only: eq)
  qed
  have c7: "\<forall>i j. 0 \<le> i \<and> i < T \<and> 0 \<le> j \<and> j < T \<longrightarrow>
        \<bar>seg_size (CalculateIndices N T ind ! nat i) -
         seg_size (CalculateIndices N T ind ! nat j)\<bar> \<le> 1"
    using sz by simp
  from c1 c2 c3 c4 c5 c6 c7 show ?thesis by (intro conjI)
qed

theorem CalculateIndices_partition_witness:
  "length (CalculateIndices 10 3 (replicate 16 (0, 0, 0))) = 16 \<and>
   seg_start (CalculateIndices 10 3 (replicate 16 (0, 0, 0)) ! 0) = 0 \<and>
   seg_size (CalculateIndices 10 3 (replicate 16 (0, 0, 0)) ! nat 0) = 4 \<and>
   seg_size (CalculateIndices 10 3 (replicate 16 (0, 0, 0)) ! nat 1) = 3 \<and>
   seg_start (CalculateIndices 10 3 (replicate 16 (0, 0, 0)) ! nat (1 + 1)) =
     seg_end (CalculateIndices 10 3 (replicate 16 (0, 0, 0)) ! nat 1) + 1 \<and>
   seg_end (CalculateIndices 10 3 (replicate 16 (0, 0, 0)) ! nat (3 - 1)) = 9"
proof -
  have h: "(1::int) \<le> 3" "(3::int) \<le> 10" "(10::int) \<le> INT_MAX"
    "3 \<le> int (length (replicate 16 (0::int, 0::int, 0::int)))"
    by (simp_all add: INT_MAX_def)
  note t = CalculateIndices_partition [OF h]
  have a: "length (CalculateIndices 10 3 (replicate 16 (0, 0, 0))) = 16"
    using t by simp
  have b: "seg_start (CalculateIndices 10 3 (replicate 16 (0, 0, 0)) ! 0) = 0"
    using t by blast
  have c: "seg_size (CalculateIndices 10 3 (replicate 16 (0, 0, 0)) ! nat 0) = 4"
    using t [THEN conjunct2, THEN conjunct1, rule_format, of 0] by simp
  have d: "seg_size (CalculateIndices 10 3 (replicate 16 (0, 0, 0)) ! nat 1) = 3"
    using t [THEN conjunct2, THEN conjunct1, rule_format, of 1] by simp
  have e: "seg_start (CalculateIndices 10 3 (replicate 16 (0, 0, 0)) ! nat (1 + 1)) =
     seg_end (CalculateIndices 10 3 (replicate 16 (0, 0, 0)) ! nat 1) + 1"
    using t [THEN conjunct2, THEN conjunct2, THEN conjunct2, THEN conjunct1, rule_format, of 1]
    by simp
  have f: "seg_end (CalculateIndices 10 3 (replicate 16 (0, 0, 0)) ! nat (3 - 1)) = 9"
    using t [THEN conjunct2, THEN conjunct2, THEN conjunct2, THEN conjunct2, THEN conjunct1]
    by simp
  from a b c d e f show ?thesis by (intro conjI)
qed

subsection \<open>The cells written by GenerateInput\<close>

lemma GetRand_range:
  assumes "0 \<le> r"
  shows "GetRand r 1 MAX_RANDOM_NUMBER = 1 + r mod MAX_RANDOM_NUMBER"
    and "1 \<le> GetRand r 1 MAX_RANDOM_NUMBER"
    and "GetRand r 1 MAX_RANDOM_NUMBER \<le> MAX_RANDOM_NUMBER"
proof -
  have m: "add32 (sub32 MAX_RANDOM_NUMBER 1) 1 = MAX_RANDOM_NUMBER"
    by (simp add: add32_def sub32_def wrap32_def MAX_RANDOM_NUMBER_def)
  have b: "0 \<le> r mod MAX_RANDOM_NUMBER" "r mod MAX_RANDOM_NUMBER < MAX_RANDOM_NUMBER"
    by (simp_all add: MAX_RANDOM_NUMBER_def)
  have s: "rem32 r MAX_RANDOM_NUMBER = r mod MAX_RANDOM_NUMBER"
    using assms by (simp add: rem32_def smod_mod_positive MAX_RANDOM_NUMBER_def)
  have w: "wrap32 (1 + r mod MAX_RANDOM_NUMBER) = 1 + r mod MAX_RANDOM_NUMBER"
    using b by (intro wrap32_id) (simp_all add: INT_MIN_def INT_MAX_def MAX_RANDOM_NUMBER_def)
  show e: "GetRand r 1 MAX_RANDOM_NUMBER = 1 + r mod MAX_RANDOM_NUMBER"
    unfolding GetRand_def m s unfolding add32_def by (rule w)
  show "1 \<le> GetRand r 1 MAX_RANDOM_NUMBER" unfolding e using b by simp
  show "GetRand r 1 MAX_RANDOM_NUMBER \<le> MAX_RANDOM_NUMBER" unfolding e using b by simp
qed

lemma GenerateInput_loop_cells:
  "0 \<le> i \<Longrightarrow>
   length (GenerateInput_loop rnd sz i gd) = length gd \<and>
   (\<forall>j. 0 \<le> j \<and> j < int (length gd) \<longrightarrow>
      GenerateInput_loop rnd sz i gd ! nat j =
        (if i \<le> j \<and> j < sz then GetRand (rnd ! nat j) 1 MAX_RANDOM_NUMBER else gd ! nat j))"
proof (induction rnd sz i gd rule: GenerateInput_loop.induct)
  case (1 rnd sz i gd)
  show ?case
  proof (cases "i < sz")
    case False
    then show ?thesis by (auto simp: GenerateInput_loop.simps [of rnd sz i gd])
  next
    case True
    let ?gd = "gd[nat i := GetRand (rnd ! nat i) 1 MAX_RANDOM_NUMBER]"
    have step: "GenerateInput_loop rnd sz i gd = GenerateInput_loop rnd sz (i + 1) ?gd"
      using True by (simp add: GenerateInput_loop.simps [of rnd sz i gd])
    have IH: "length (GenerateInput_loop rnd sz (i + 1) ?gd) = length gd"
      "\<And>j. 0 \<le> j \<Longrightarrow> j < int (length gd) \<Longrightarrow>
        GenerateInput_loop rnd sz (i + 1) ?gd ! nat j =
        (if i + 1 \<le> j \<and> j < sz then GetRand (rnd ! nat j) 1 MAX_RANDOM_NUMBER else ?gd ! nat j)"
      using "1.IH" [OF True] "1.prems" by simp_all
    show ?thesis
    proof (intro conjI allI impI)
      show "length (GenerateInput_loop rnd sz i gd) = length gd"
        using IH(1) by (simp add: step)
    next
      fix j assume j: "0 \<le> j \<and> j < int (length gd)"
      note eq = IH(2) [of j, OF conjunct1 [OF j] conjunct2 [OF j], folded step]
      show "GenerateInput_loop rnd sz i gd ! nat j =
        (if i \<le> j \<and> j < sz then GetRand (rnd ! nat j) 1 MAX_RANDOM_NUMBER else gd ! nat j)"
      proof (cases "j = i")
        case True
        have ni: "nat i < length gd" using j True by linarith
        have "\<not> (i + 1 \<le> j \<and> j < sz)" using True by simp
        then have "GenerateInput_loop rnd sz i gd ! nat j = ?gd ! nat j"
          using eq by (simp only: if_False)
        also have "\<dots> = GetRand (rnd ! nat i) 1 MAX_RANDOM_NUMBER" using ni True by simp
        finally show ?thesis using True \<open>i < sz\<close> by simp
      next
        case False
        have ne: "nat i \<noteq> nat j" using False j "1.prems" by linarith
        have c: "(i + 1 \<le> j \<and> j < sz) = (i \<le> j \<and> j < sz)" using False by auto
        have "?gd ! nat j = gd ! nat j" using ne by simp
        then show ?thesis using eq by (simp only: c)
      qed
    qed
  qed
qed

text \<open>
  Claim C10: for every size of at least 1 and every zero-index argument, \<open>GenerateInput\<close>
  fills the first \<open>size\<close> cells from the fixed sequence of \<^verbatim>\<open>rand\<close> values, each cell in
  1..\<open>MAX_RANDOM_NUMBER\<close>, and then writes 0 at \<open>indexForZero\<close> exactly when
  \<open>0 \<le> indexForZero < size\<close>; so the array holds a zero if and only if such an index was
  given. The result is a function of the \<^verbatim>\<open>rand\<close> sequence, the size and the index alone.
\<close>

theorem GenerateInput_cells:
  assumes "1 \<le> sz" "sz \<le> int (length gd)" "sz \<le> int (length rnd)" "\<forall>r \<in> set rnd. 0 \<le> r"
  shows
    "length (GenerateInput rnd gd sz indexForZero) = length gd \<and>
     (\<forall>j. 0 \<le> j \<and> j < sz \<and> j \<noteq> indexForZero \<longrightarrow>
        GenerateInput rnd gd sz indexForZero ! nat j = 1 + rnd ! nat j mod MAX_RANDOM_NUMBER \<and>
        1 \<le> GenerateInput rnd gd sz indexForZero ! nat j \<and>
        GenerateInput rnd gd sz indexForZero ! nat j \<le> MAX_RANDOM_NUMBER) \<and>
     (0 \<le> indexForZero \<and> indexForZero < sz \<longrightarrow>
        GenerateInput rnd gd sz indexForZero ! nat indexForZero = 0) \<and>
     ((\<exists>j. 0 \<le> j \<and> j < sz \<and> GenerateInput rnd gd sz indexForZero ! nat j = 0) =
      (0 \<le> indexForZero \<and> indexForZero < sz))"
proof -
  let ?g1 = "GenerateInput_loop rnd sz 0 gd"
  let ?g = "GenerateInput rnd gd sz indexForZero"
  note L = GenerateInput_loop_cells [of 0 rnd sz gd, simplified]
  have len1: "length ?g1 = length gd" using L by simp
  have cell1: "?g1 ! nat j = GetRand (rnd ! nat j) 1 MAX_RANDOM_NUMBER" if "0 \<le> j" "j < sz" for j
    using L that assms(2) by simp
  have rj: "0 \<le> rnd ! nat j" if "0 \<le> j" "j < sz" for j
  proof -
    have "nat j < length rnd" using that assms(3) by linarith
    then have "rnd ! nat j \<in> set rnd" by simp
    with assms(4) show ?thesis by blast
  qed
  have c1: "length ?g = length gd" by (simp add: GenerateInput_def Let_def len1)
  have other: "?g ! nat j = ?g1 ! nat j" if "0 \<le> j" "j \<noteq> indexForZero" for j
  proof (cases "0 \<le> indexForZero \<and> indexForZero < sz")
    case True
    then have "nat indexForZero \<noteq> nat j" using that by linarith
    with True show ?thesis by (simp add: GenerateInput_def Let_def)
  next
    case False
    then have "?g = ?g1" unfolding GenerateInput_def Let_def by (simp only: if_False)
    then show ?thesis by simp
  qed
  have c2: "\<forall>j. 0 \<le> j \<and> j < sz \<and> j \<noteq> indexForZero \<longrightarrow>
        ?g ! nat j = 1 + rnd ! nat j mod MAX_RANDOM_NUMBER \<and>
        1 \<le> ?g ! nat j \<and> ?g ! nat j \<le> MAX_RANDOM_NUMBER"
  proof (intro allI impI)
    fix j assume j: "0 \<le> j \<and> j < sz \<and> j \<noteq> indexForZero"
    then have e: "?g ! nat j = GetRand (rnd ! nat j) 1 MAX_RANDOM_NUMBER"
      using other [of j] cell1 [of j] by simp
    from j have r: "0 \<le> rnd ! nat j" using rj by simp
    show "?g ! nat j = 1 + rnd ! nat j mod MAX_RANDOM_NUMBER \<and>
        1 \<le> ?g ! nat j \<and> ?g ! nat j \<le> MAX_RANDOM_NUMBER"
      unfolding e using GetRand_range [OF r] by simp
  qed
  have c3: "0 \<le> indexForZero \<and> indexForZero < sz \<longrightarrow> ?g ! nat indexForZero = 0"
  proof
    assume z: "0 \<le> indexForZero \<and> indexForZero < sz"
    then have "nat indexForZero < length ?g1" using assms(2) len1 by linarith
    with z show "?g ! nat indexForZero = 0" by (simp add: GenerateInput_def Let_def)
  qed
  have c4: "(\<exists>j. 0 \<le> j \<and> j < sz \<and> ?g ! nat j = 0) = (0 \<le> indexForZero \<and> indexForZero < sz)"
  proof
    assume "\<exists>j. 0 \<le> j \<and> j < sz \<and> ?g ! nat j = 0"
    then obtain j where j: "0 \<le> j" "j < sz" "?g ! nat j = 0" by blast
    have "j = indexForZero"
    proof (rule ccontr)
      assume "j \<noteq> indexForZero"
      with c2 j(1,2) have "1 \<le> ?g ! nat j" by blast
      with j(3) show False by simp
    qed
    with j show "0 \<le> indexForZero \<and> indexForZero < sz" by simp
  next
    assume z: "0 \<le> indexForZero \<and> indexForZero < sz"
    with c3 have "0 \<le> indexForZero \<and> indexForZero < sz \<and> ?g ! nat indexForZero = 0" by simp
    then show "\<exists>j. 0 \<le> j \<and> j < sz \<and> ?g ! nat j = 0" ..
  qed
  from c1 c2 c3 c4 show ?thesis by (intro conjI)
qed

theorem GenerateInput_cells_witness:
  "length (GenerateInput [4000, 2999, 7] [0, 0, 0] 3 1) = 3 \<and>
   GenerateInput [4000, 2999, 7] [0, 0, 0] 3 1 ! nat 0 = 1001 \<and>
   GenerateInput [4000, 2999, 7] [0, 0, 0] 3 1 ! nat 1 = 0 \<and>
   GenerateInput [4000, 2999, 7] [0, 0, 0] 3 1 ! nat 2 = 8"
proof -
  have h: "(1::int) \<le> 3" "(3::int) \<le> int (length [0::int, 0, 0])"
    "(3::int) \<le> int (length [4000::int, 2999, 7])" "\<forall>r \<in> set [4000::int, 2999, 7]. 0 \<le> r"
    by simp_all
  note t = GenerateInput_cells [OF h, of 1]
  have a: "length (GenerateInput [4000, 2999, 7] [0, 0, 0] 3 1) = 3" using t by simp
  have b: "GenerateInput [4000, 2999, 7] [0, 0, 0] 3 1 ! nat 0 = 1001"
    using t [THEN conjunct2, THEN conjunct1, rule_format, of 0]
    by (simp add: MAX_RANDOM_NUMBER_def)
  have c: "GenerateInput [4000, 2999, 7] [0, 0, 0] 3 1 ! nat 1 = 0"
    using t [THEN conjunct2, THEN conjunct2, THEN conjunct1] by simp
  have d: "GenerateInput [4000, 2999, 7] [0, 0, 0] 3 1 ! nat 2 = 8"
    using t [THEN conjunct2, THEN conjunct1, rule_format, of 2]
    by (simp add: MAX_RANDOM_NUMBER_def)
  from a b c d show ?thesis by (intro conjI)
qed

subsection \<open>The round in which the parent joins its threads\<close>

lemma ThFindProd_frame:
  "ThFindProd st param = st\<lparr>trace := trace st @
     [PrintThreadStarted (fst param) (fst (snd param)) (snd (snd param))]\<rparr>"
  by (simp add: ThFindProd_def Let_def)

lemma InitSharedVars_loop_cells:
  "0 \<le> i \<Longrightarrow>
   gThreadCount (InitSharedVars_loop st i) = gThreadCount st \<and>
   gData (InitSharedVars_loop st i) = gData st \<and>
   trace (InitSharedVars_loop st i) = trace st \<and>
   length (gThreadProd (InitSharedVars_loop st i)) = length (gThreadProd st) \<and>
   (\<forall>j. 0 \<le> j \<and> j < int (length (gThreadProd st)) \<longrightarrow>
      gThreadProd (InitSharedVars_loop st i) ! nat j =
        (if i \<le> j \<and> j < gThreadCount st then 1 else gThreadProd st ! nat j))"
proof (induction st i rule: InitSharedVars_loop.induct)
  case (1 st i)
  show ?case
  proof (cases "i < gThreadCount st")
    case False
    then show ?thesis by (auto simp: InitSharedVars_loop.simps [of st i])
  next
    case True
    let ?st = "st\<lparr>gThreadDone := (gThreadDone st)[nat i := False],
                   gThreadProd := (gThreadProd st)[nat i := 1]\<rparr>"
    have step: "InitSharedVars_loop st i = InitSharedVars_loop ?st (i + 1)"
      using True by (simp add: InitSharedVars_loop.simps [of st i])
    have IH: "gThreadCount (InitSharedVars_loop ?st (i + 1)) = gThreadCount st"
      "gData (InitSharedVars_loop ?st (i + 1)) = gData st"
      "trace (InitSharedVars_loop ?st (i + 1)) = trace st"
      "length (gThreadProd (InitSharedVars_loop ?st (i + 1))) = length (gThreadProd st)"
      "\<And>j. 0 \<le> j \<Longrightarrow> j < int (length (gThreadProd st)) \<Longrightarrow>
        gThreadProd (InitSharedVars_loop ?st (i + 1)) ! nat j =
        (if i + 1 \<le> j \<and> j < gThreadCount st then 1 else (gThreadProd st)[nat i := 1] ! nat j)"
      using "1.IH" [OF True] "1.prems" by simp_all
    show ?thesis
    proof (intro conjI allI impI)
      fix j assume j: "0 \<le> j \<and> j < int (length (gThreadProd st))"
      note eq = IH(5) [of j, OF conjunct1 [OF j] conjunct2 [OF j], folded step]
      show "gThreadProd (InitSharedVars_loop st i) ! nat j =
        (if i \<le> j \<and> j < gThreadCount st then 1 else gThreadProd st ! nat j)"
      proof (cases "j = i")
        case True
        have ni: "nat i < length (gThreadProd st)" using j True by linarith
        have "\<not> (i + 1 \<le> j \<and> j < gThreadCount st)" using True by simp
        then have "gThreadProd (InitSharedVars_loop st i) ! nat j = (gThreadProd st)[nat i := 1] ! nat j"
          using eq by (simp only: if_False)
        also have "\<dots> = 1" using ni True by simp
        finally show ?thesis using True \<open>i < gThreadCount st\<close> by simp
      next
        case False
        have ne: "nat i \<noteq> nat j" using False j "1.prems" by linarith
        have c: "(i + 1 \<le> j \<and> j < gThreadCount st) = (i \<le> j \<and> j < gThreadCount st)"
          using False by auto
        have "(gThreadProd st)[nat i := 1] ! nat j = gThreadProd st ! nat j" using ne by simp
        then show ?thesis using eq by (simp only: c)
      qed
    qed (simp_all add: step IH)
  qed
qed

lemma main_create_threads_frame:
  "gThreadProd (main_create_threads st indices i) = gThreadProd st \<and>
   gThreadDone (main_create_threads st indices i) = gThreadDone st \<and>
   gThreadCount (main_create_threads st indices i) = gThreadCount st \<and>
   gData (main_create_threads st indices i) = gData st"
proof (induction st indices i rule: main_create_threads.induct)
  case (1 st indices i)
  show ?case
  proof (cases "i < gThreadCount st")
    case False
    then show ?thesis by (simp add: main_create_threads.simps [of st indices i])
  next
    case True
    from "1.IH" [OF True refl refl] True show ?thesis
      by (simp add: main_create_threads.simps [of st indices i] Let_def ThFindProd_frame)
  qed
qed

lemma main_join_threads_frame:
  "gThreadProd (main_join_threads st i) = gThreadProd st \<and>
   gThreadDone (main_join_threads st i) = gThreadDone st \<and>
   gThreadCount (main_join_threads st i) = gThreadCount st \<and>
   gData (main_join_threads st i) = gData st"
proof (induction st i rule: main_join_threads.induct)
  case (1 st i)
  show ?case
  proof (cases "i < gThreadCount st")
    case False
    then show ?thesis by (simp add: main_join_threads.simps [of st i])
  next
    case True
    from "1.IH" [OF True] True show ?thesis
      by (simp add: main_join_threads.simps [of st i])
  qed
qed

lemma ComputeTotalProduct_loop_ones:
  "0 \<le> i \<Longrightarrow> \<forall>j. i \<le> j \<and> j < gThreadCount st \<longrightarrow> gThreadProd st ! nat j = 1 \<Longrightarrow>
   ComputeTotalProduct_loop st i 1 = 1"
proof (induction st i "1::int" rule: ComputeTotalProduct_loop.induct)
  case (1 st i)
  show ?case
  proof (cases "i < gThreadCount st")
    case False
    then show ?thesis by (simp add: ComputeTotalProduct_loop.simps [of st i])
  next
    case True
    with "1.prems"(2) have c: "gThreadProd st ! nat i = 1" by simp
    have m: "mod_step 1 1 = 1"
      by (simp add: mod_step_def rem32_def mul32_def wrap32_def NUM_LIMIT_def smod_mod_positive)
    have "ComputeTotalProduct_loop st (i + 1) 1 = 1"
      using "1.hyps" [OF True] c m "1.prems" by simp
    with True c m show ?thesis by (simp add: ComputeTotalProduct_loop.simps [of st i])
  qed
qed

lemma join_round_product:
  assumes len: "gThreadCount st \<le> int (length (gThreadProd st))"
  shows "ComputeTotalProduct
           (main_join_threads (main_create_threads (InitSharedVars st) indices 0) 0) = 1"
proof -
  let ?st1 = "InitSharedVars st"
  let ?st3 = "main_join_threads (main_create_threads ?st1 indices 0) 0"
  note I = InitSharedVars_loop_cells [of 0 st, simplified]
  have cnt1: "gThreadCount ?st1 = gThreadCount st" using I by (simp add: InitSharedVars_def)
  have ones1: "gThreadProd ?st1 ! nat j = 1" if "0 \<le> j" "j < gThreadCount st" for j
    using I that len by (simp add: InitSharedVars_def)
  have fr: "gThreadProd ?st3 = gThreadProd ?st1" "gThreadCount ?st3 = gThreadCount ?st1"
    by (simp_all add: main_join_threads_frame main_create_threads_frame)
  have "\<forall>j. 0 \<le> j \<and> j < gThreadCount ?st3 \<longrightarrow> gThreadProd ?st3 ! nat j = 1"
    using ones1 by (simp add: fr cnt1)
  then show "ComputeTotalProduct ?st3 = 1"
    unfolding ComputeTotalProduct_def by (intro ComputeTotalProduct_loop_ones) simp_all
qed

text \<open>
  Claim C3: \<open>ThFindProd\<close> leaves \<open>gThreadProd\<close> and \<open>gThreadDone\<close> as they are, for every
  state and every parameter row (it only prints its line); so after \<open>InitSharedVars\<close> and
  the round in which the parent creates and joins the threads, \<open>ComputeTotalProduct\<close>
  returns 1, whatever the array holds, as long as the thread count does not exceed the
  length of \<open>gThreadProd\<close>.
\<close>

theorem ThFindProd_publishes_nothing:
  "gThreadProd (ThFindProd st param) = gThreadProd st \<and>
   gThreadDone (ThFindProd st param) = gThreadDone st \<and>
   (gThreadCount st \<le> int (length (gThreadProd st)) \<longrightarrow>
    ComputeTotalProduct
      (main_join_threads (main_create_threads (InitSharedVars st) indices 0) 0) = 1)"
  by (simp add: ThFindProd_frame join_round_product)

theorem ThFindProd_publishes_nothing_witness:
  "ComputeTotalProduct
     (main_join_threads
        (main_create_threads
           (InitSharedVars
              \<lparr>gData = [5, 0, 7], gThreadCount = 2, gDoneThreadCount = 0,
                 gThreadProd = [0, 0, 0], gThreadDone = [False, False, False],
                 completed = 0, mutex = 0, trace = []\<rparr>)
           [(0, 0, 1), (1, 2, 2)] 0) 0) = 1"
  using ThFindProd_publishes_nothing
    [of "\<lparr>gData = [5, 0, 7], gThreadCount = 2, gDoneThreadCount = 0,
          gThreadProd = [0, 0, 0], gThreadDone = [False, False, False],
          completed = 0, mutex = 0, trace = []\<rparr>" "(0, 0, 1)" "[(0, 0, 1), (1, 2, 2)]"]
  by simp

subsection \<open>The worker with semaphores\<close>

lemma ThFindProdWithSemaphore_loop_eq:
  "ThFindProdWithSemaphore_loop gd endi i p = SqFindProd_loop gd (endi + 1) i p"
proof (induction gd endi i p rule: ThFindProdWithSemaphore_loop.induct)
  case (1 gd endi i localProd)
  show ?case
  proof (cases "i \<le> endi \<and> gd ! nat i \<noteq> 0")
    case True
    with "1.IH" show ?thesis
      by (simp add: ThFindProdWithSemaphore_loop.simps [of gd endi i]
            SqFindProd_loop.simps [of gd "endi + 1" i])
  next
    case False
    then show ?thesis
      by (auto simp: ThFindProdWithSemaphore_loop.simps [of gd endi i]
            SqFindProd_loop.simps [of gd "endi + 1" i])
  qed
qed

lemma SqFindProd_loop_fold:
  "0 \<le> i \<Longrightarrow> sz \<le> int (length gd) \<Longrightarrow>
   SqFindProd_loop gd sz i p =
     (if 0 \<in> set (drop (nat i) (take (nat sz) gd)) then 0
      else foldl mod_step p (drop (nat i) (take (nat sz) gd)))"
proof (induction gd sz i p rule: SqFindProd_loop.induct)
  case (1 gd sz i product)
  show ?case
  proof (cases "i < sz")
    case False
    then have "drop (nat i) (take (nat sz) gd) = []" by simp
    with False show ?thesis by (simp add: SqFindProd_loop.simps [of gd sz i])
  next
    case True
    note dr = drop_take_step [OF "1.prems"(1) True "1.prems"(2)]
    show ?thesis
    proof (cases "gd ! nat i = 0")
      case True
      with \<open>i < sz\<close> show ?thesis
        by (simp add: SqFindProd_loop.simps [of gd sz i] dr)
    next
      case False
      have "SqFindProd_loop gd sz i product =
            SqFindProd_loop gd sz (i + 1) (mod_step product (gd ! nat i))"
        using False \<open>i < sz\<close> by (simp add: SqFindProd_loop.simps [of gd sz i])
      also have "\<dots> =
          (if 0 \<in> set (drop (nat (i + 1)) (take (nat sz) gd)) then 0
           else foldl mod_step (mod_step product (gd ! nat i))
                  (drop (nat (i + 1)) (take (nat sz) gd)))"
        using "1.IH" [OF \<open>i < sz\<close> False] "1.prems" by simp
      finally show ?thesis using False by (simp add: dr)
    qed
  qed
qed

lemma segment_value:
  assumes "0 \<le> start" "endi < int (length gd)"
  shows "ThFindProdWithSemaphore_loop gd endi start 1 =
         (if 0 \<in> set (drop (nat start) (take (nat (endi + 1)) gd)) then 0
          else foldl mod_step 1 (drop (nat start) (take (nat (endi + 1)) gd)))"
  using assms by (simp add: ThFindProdWithSemaphore_loop_eq SqFindProd_loop_fold)

lemma segment_fold_product:
  assumes "\<forall>x \<in> set xs. 0 \<le> x \<and> x * (NUM_LIMIT - 1) \<le> INT_MAX"
  shows "(if 0 \<in> set xs then 0 else foldl mod_step 1 xs) = prod_list xs mod NUM_LIMIT"
proof -
  have no: "no_overflow 1 xs"
    using assms by (intro bounded_no_overflow) (simp_all add: NUM_LIMIT_def)
  have one: "(1::int) smod NUM_LIMIT = 1" by (simp add: NUM_LIMIT_def smod_mod_positive)
  have nn: "0 \<le> prod_list xs" using assms by (intro prod_list_nonneg) simp
  have f: "foldl mod_step 1 xs = prod_list xs mod NUM_LIMIT"
    using foldl_mod_step [OF no one] nn by (simp add: smod_mod_positive NUM_LIMIT_def)
  show ?thesis
  proof (cases "0 \<in> set xs")
    case True
    then have "prod_list xs = 0" by (simp add: prod_list_zero_iff)
    with True show ?thesis by simp
  next
    case False
    with f show ?thesis by simp
  qed
qed

text \<open>
  Claim C7, as amended: for every segment inside the array and every slot of \<open>gThreadProd\<close>,
  the worker \<open>ThFindProdWithSemaphore\<close> computes the value \<open>lp\<close>: 0 if the segment holds a
  zero, whatever the other elements are, and otherwise the running product of the segment,
  reduced by line 305 after every multiplication in the arithmetic of int; \<open>lp\<close> is the
  product of the segment modulo \<open>NUM_LIMIT\<close> when the elements are non-negative and at most
  \<open>INT_MAX div (NUM_LIMIT - 1)\<close> = 215351, as the generated ones are. The worker stores \<open>lp\<close>
  once, in its own slot, before any other action. If \<open>lp\<close> is 0 it then posts \<open>completed\<close>
  and returns, without touching \<open>gDoneThreadCount\<close> or \<open>mutex\<close>, whatever the value of
  \<open>mutex\<close>. If \<open>lp\<close> is not 0 it waits on \<open>mutex\<close>: when \<open>mutex\<close> is 0 it stays blocked there,
  with the counter and \<open>completed\<close> as they were; when \<open>mutex\<close> is free it adds one to
  \<open>gDoneThreadCount\<close>, posts \<open>completed\<close> if and only if the counter has become equal to
  \<open>gThreadCount\<close>, posts \<open>mutex\<close> and returns, the increment and the comparison lying
  between the wait and the post of \<open>mutex\<close>. Nothing else changes.
\<close>

theorem ThFindProdWithSemaphore_effect:
  assumes "0 \<le> threadNum" "threadNum < int (length (gThreadProd st))"
    and "0 \<le> start" "endi < int (length (gData st))"
    and "seg = drop (nat start) (take (nat (endi + 1)) (gData st))"
    and "lp = (if 0 \<in> set seg then 0 else foldl mod_step 1 seg)"
  shows
    "((\<forall>x \<in> set seg. 0 \<le> x \<and> x * (NUM_LIMIT - 1) \<le> INT_MAX)
        \<longrightarrow> lp = prod_list seg mod NUM_LIMIT) \<and>
     ((\<exists>k. start \<le> k \<and> k \<le> endi \<and> gData st ! nat k = 0) \<longrightarrow> lp = 0) \<and>
     (lp = 0 \<longrightarrow>
        ThFindProdWithSemaphore st (threadNum, start, endi) =
          ([StoreProd threadNum 0, SemPost Completed],
           Returned (st\<lparr>gThreadProd := (gThreadProd st)[nat threadNum := 0],
                        completed := completed st + 1\<rparr>))) \<and>
     (lp \<noteq> 0 \<and> 0 < mutex st \<longrightarrow>
        ThFindProdWithSemaphore st (threadNum, start, endi) =
          ([StoreProd threadNum lp, SemWait Mutex, IncDoneCount]
             @ (if add32 (gDoneThreadCount st) 1 = gThreadCount st
                then [SemPost Completed] else [])
             @ [SemPost Mutex],
           Returned (st\<lparr>gDoneThreadCount := add32 (gDoneThreadCount st) 1,
                        gThreadProd := (gThreadProd st)[nat threadNum := lp],
                        completed :=
                          (if add32 (gDoneThreadCount st) 1 = gThreadCount st
                           then completed st + 1 else completed st)\<rparr>))) \<and>
     (lp \<noteq> 0 \<and> mutex st = 0 \<longrightarrow>
        ThFindProdWithSemaphore st (threadNum, start, endi) =
          ([StoreProd threadNum lp, SemWait Mutex],
           Blocked (st\<lparr>gThreadProd := (gThreadProd st)[nat threadNum := lp]\<rparr>)))"
proof (intro conjI impI)
  have lp: "ThFindProdWithSemaphore_loop (gData st) endi start 1 = lp"
    using segment_value [OF assms(3,4)] assms(5,6) by simp
  {
    assume "\<forall>x \<in> set seg. 0 \<le> x \<and> x * (NUM_LIMIT - 1) \<le> INT_MAX"
    then show "lp = prod_list seg mod NUM_LIMIT"
      unfolding assms(6) by (rule segment_fold_product)
  }
  {
    assume "\<exists>k. start \<le> k \<and> k \<le> endi \<and> gData st ! nat k = 0"
    then obtain k where k: "start \<le> k" "k \<le> endi" "gData st ! nat k = 0" by blast
    have len: "length seg = nat (endi + 1) - nat start" using assms(4,5) by simp
    have idx: "nat (k - start) < length seg" using k assms(3) len by linarith
    have "nat start + nat (k - start) = nat k" using k assms(3) by linarith
    then have "seg ! nat (k - start) = gData st ! nat k"
      using k assms(3,4) by (simp add: assms(5))
    with k(3) idx have "0 \<in> set seg" by (metis nth_mem)
    then show "lp = 0" by (simp add: assms(6))
  }
  {
    assume "lp = 0"
    then show "ThFindProdWithSemaphore st (threadNum, start, endi) =
          ([StoreProd threadNum 0, SemPost Completed],
           Returned (st\<lparr>gThreadProd := (gThreadProd st)[nat threadNum := 0],
                        completed := completed st + 1\<rparr>))"
      by (simp add: ThFindProdWithSemaphore_def Let_def lp sem_post_def)
  }
  {
    assume a: "lp \<noteq> 0 \<and> 0 < mutex st"
    then have mx: "sem_wait (mutex st) = Some (mutex st - 1)"
      "sem_post (mutex st - 1) = mutex st"
      by (simp_all add: sem_wait_def sem_post_def)
    from a show "ThFindProdWithSemaphore st (threadNum, start, endi) =
          ([StoreProd threadNum lp, SemWait Mutex, IncDoneCount]
             @ (if add32 (gDoneThreadCount st) 1 = gThreadCount st
                then [SemPost Completed] else [])
             @ [SemPost Mutex],
           Returned (st\<lparr>gDoneThreadCount := add32 (gDoneThreadCount st) 1,
                        gThreadProd := (gThreadProd st)[nat threadNum := lp],
                        completed :=
                          (if add32 (gDoneThreadCount st) 1 = gThreadCount st
                           then completed st + 1 else completed st)\<rparr>))"
      by (simp add: ThFindProdWithSemaphore_def Let_def lp mx sem_post_def)
  }
  {
    assume a: "lp \<noteq> 0 \<and> mutex st = 0"
    then show "ThFindProdWithSemaphore st (threadNum, start, endi) =
          ([StoreProd threadNum lp, SemWait Mutex],
           Blocked (st\<lparr>gThreadProd := (gThreadProd st)[nat threadNum := lp]\<rparr>))"
      by (simp add: ThFindProdWithSemaphore_def Let_def lp sem_wait_def)
  }
qed

theorem ThFindProdWithSemaphore_effect_witness:
  "ThFindProdWithSemaphore
     \<lparr>gData = [3, 4, 5, 6], gThreadCount = 2, gDoneThreadCount = 1,
        gThreadProd = [1, 1], gThreadDone = [False, False],
        completed = 0, mutex = 1, trace = []\<rparr> (1, 2, 3) =
     ([StoreProd 1 30, SemWait Mutex, IncDoneCount, SemPost Completed, SemPost Mutex],
      Returned \<lparr>gData = [3, 4, 5, 6], gThreadCount = 2, gDoneThreadCount = 2,
                 gThreadProd = [1, 30], gThreadDone = [False, False],
                 completed = 1, mutex = 1, trace = []\<rparr>) \<and>
   (30::int) = prod_list [5, 6] mod NUM_LIMIT \<and>
   ThFindProdWithSemaphore
     \<lparr>gData = [3, 0, 5, 6], gThreadCount = 2, gDoneThreadCount = 0,
        gThreadProd = [1, 1], gThreadDone = [False, False],
        completed = 0, mutex = 0, trace = []\<rparr> (0, 0, 1) =
     ([StoreProd 0 0, SemPost Completed],
      Returned \<lparr>gData = [3, 0, 5, 6], gThreadCount = 2, gDoneThreadCount = 0,
                 gThreadProd = [0, 1], gThreadDone = [False, False],
                 completed = 1, mutex = 0, trace = []\<rparr>) \<and>
   ThFindProdWithSemaphore
     \<lparr>gData = [3, 4, 5, 6], gThreadCount = 2, gDoneThreadCount = 1,
        gThreadProd = [1, 1], gThreadDone = [False, False],
        completed = 0, mutex = 0, trace = []\<rparr> (1, 2, 3) =
     ([StoreProd 1 30, SemWait Mutex],
      Blocked \<lparr>gData = [3, 4, 5, 6], gThreadCount = 2, gDoneThreadCount = 1,
                gThreadProd = [1, 30], gThreadDone = [False, False],
                completed = 0, mutex = 0, trace = []\<rparr>)"
proof -
  have f: "(30::int) = (if 0 \<in> set [5, 6::int] then 0 else foldl mod_step 1 [5, 6])"
    by (simp add: mod_step_def rem32_def mul32_def wrap32_def NUM_LIMIT_def)
  have z: "(0::int) = (if 0 \<in> set [3, 0::int] then 0 else foldl mod_step 1 [3, 0])"
    by simp
  have a: "(\<forall>x \<in> set [5, 6::int]. 0 \<le> x \<and> x * (NUM_LIMIT - 1) \<le> INT_MAX)
             \<longrightarrow> (30::int) = prod_list [5, 6] mod NUM_LIMIT"
    and a': "(30::int) \<noteq> 0 \<and>
          0 < mutex \<lparr>gData = [3, 4, 5, 6], gThreadCount = 2, gDoneThreadCount = 1,
                gThreadProd = [1, 1], gThreadDone = [False, False],
                completed = 0, mutex = 1, trace = []\<rparr> \<longrightarrow>
        ThFindProdWithSemaphore
          \<lparr>gData = [3, 4, 5, 6], gThreadCount = 2, gDoneThreadCount = 1,
             gThreadProd = [1, 1], gThreadDone = [False, False],
             completed = 0, mutex = 1, trace = []\<rparr> (1, 2, 3) =
          ([StoreProd 1 30, SemWait Mutex, IncDoneCount, SemPost Completed, SemPost Mutex],
           Returned \<lparr>gData = [3, 4, 5, 6], gThreadCount = 2, gDoneThreadCount = 2,
                 gThreadProd = [1, 30], gThreadDone = [False, False],
                 completed = 1, mutex = 1, trace = []\<rparr>)"
    using ThFindProdWithSemaphore_effect
      [where threadNum = 1 and start = 2 and endi = 3 and seg = "[5, 6]" and lp = 30
         and st = "\<lparr>gData = [3, 4, 5, 6], gThreadCount = 2, gDoneThreadCount = 1,
        gThreadProd = [1, 1], gThreadDone = [False, False],
        completed = 0, mutex = 1, trace = []\<rparr>", OF _ _ _ _ _ f]
    by (simp_all add: add32_def wrap32_def)
  have b: "(0::int) = 0 \<longrightarrow>
        ThFindProdWithSemaphore
          \<lparr>gData = [3, 0, 5, 6], gThreadCount = 2, gDoneThreadCount = 0,
             gThreadProd = [1, 1], gThreadDone = [False, False],
             completed = 0, mutex = 0, trace = []\<rparr> (0, 0, 1) =
          ([StoreProd 0 0, SemPost Completed],
           Returned \<lparr>gData = [3, 0, 5, 6], gThreadCount = 2, gDoneThreadCount = 0,
                 gThreadProd = [0, 1], gThreadDone = [False, False],
                 completed = 1, mutex = 0, trace = []\<rparr>)"
    using ThFindProdWithSemaphore_effect
      [where threadNum = 0 and start = 0 and endi = 1 and seg = "[3, 0]" and lp = 0
         and st = "\<lparr>gData = [3, 0, 5, 6], gThreadCount = 2, gDoneThreadCount = 0,
        gThreadProd = [1, 1], gThreadDone = [False, False],
        completed = 0, mutex = 0, trace = []\<rparr>", OF _ _ _ _ _ z]
    by simp
  have c: "(30::int) \<noteq> 0 \<and>
          mutex \<lparr>gData = [3, 4, 5, 6], gThreadCount = 2, gDoneThreadCount = 1,
                gThreadProd = [1, 1], gThreadDone = [False, False],
                completed = 0, mutex = 0, trace = []\<rparr> = 0 \<longrightarrow>
        ThFindProdWithSemaphore
          \<lparr>gData = [3, 4, 5, 6], gThreadCount = 2, gDoneThreadCount = 1,
             gThreadProd = [1, 1], gThreadDone = [False, False],
             completed = 0, mutex = 0, trace = []\<rparr> (1, 2, 3) =
          ([StoreProd 1 30, SemWait Mutex],
           Blocked \<lparr>gData = [3, 4, 5, 6], gThreadCount = 2, gDoneThreadCount = 1,
                gThreadProd = [1, 30], gThreadDone = [False, False],
                completed = 0, mutex = 0, trace = []\<rparr>)"
    using ThFindProdWithSemaphore_effect
      [where threadNum = 1 and start = 2 and endi = 3 and seg = "[5, 6]" and lp = 30
         and st = "\<lparr>gData = [3, 4, 5, 6], gThreadCount = 2, gDoneThreadCount = 1,
        gThreadProd = [1, 1], gThreadDone = [False, False],
        completed = 0, mutex = 0, trace = []\<rparr>", OF _ _ _ _ _ f]
    by simp
  have A: "ThFindProdWithSemaphore
     \<lparr>gData = [3, 4, 5, 6], gThreadCount = 2, gDoneThreadCount = 1,
        gThreadProd = [1, 1], gThreadDone = [False, False],
        completed = 0, mutex = 1, trace = []\<rparr> (1, 2, 3) =
     ([StoreProd 1 30, SemWait Mutex, IncDoneCount, SemPost Completed, SemPost Mutex],
      Returned \<lparr>gData = [3, 4, 5, 6], gThreadCount = 2, gDoneThreadCount = 2,
                 gThreadProd = [1, 30], gThreadDone = [False, False],
                 completed = 1, mutex = 1, trace = []\<rparr>)"
    and P: "(30::int) = prod_list [5, 6] mod NUM_LIMIT"
    using a a' by (simp_all add: NUM_LIMIT_def INT_MAX_def)
  have B: "ThFindProdWithSemaphore
     \<lparr>gData = [3, 0, 5, 6], gThreadCount = 2, gDoneThreadCount = 0,
        gThreadProd = [1, 1], gThreadDone = [False, False],
        completed = 0, mutex = 0, trace = []\<rparr> (0, 0, 1) =
     ([StoreProd 0 0, SemPost Completed],
      Returned \<lparr>gData = [3, 0, 5, 6], gThreadCount = 2, gDoneThreadCount = 0,
                 gThreadProd = [0, 1], gThreadDone = [False, False],
                 completed = 1, mutex = 0, trace = []\<rparr>)"
    using b by simp
  have C: "ThFindProdWithSemaphore
     \<lparr>gData = [3, 4, 5, 6], gThreadCount = 2, gDoneThreadCount = 1,
        gThreadProd = [1, 1], gThreadDone = [False, False],
        completed = 0, mutex = 0, trace = []\<rparr> (1, 2, 3) =
     ([StoreProd 1 30, SemWait Mutex],
      Blocked \<lparr>gData = [3, 4, 5, 6], gThreadCount = 2, gDoneThreadCount = 1,
                gThreadProd = [1, 30], gThreadDone = [False, False],
                completed = 0, mutex = 0, trace = []\<rparr>)"
    using c by simp
  from A P B C show ?thesis by (intro conjI)
qed

text \<open>
  The claim as written, for every segment assignment, fails on the array
  \<open>[2, 1073741825]\<close> with the segment from 0 to 1: the multiplication of line 305 wraps
  around and the worker stores \<open>-7529\<close> in its slot, and the product of the segment modulo
  9973 is 7533.
\<close>

theorem ThFindProdWithSemaphore_large_element_counterexample:
  "ThFindProdWithSemaphore
     \<lparr>gData = [2, 1073741825], gThreadCount = 1, gDoneThreadCount = 0,
        gThreadProd = [1], gThreadDone = [False],
        completed = 0, mutex = 1, trace = []\<rparr> (0, 0, 1) =
     ([StoreProd 0 (- 7529), SemWait Mutex, IncDoneCount, SemPost Completed, SemPost Mutex],
      Returned \<lparr>gData = [2, 1073741825], gThreadCount = 1, gDoneThreadCount = 1,
                 gThreadProd = [- 7529], gThreadDone = [False],
                 completed = 1, mutex = 1, trace = []\<rparr>) \<and>
   prod_list [2, 1073741825] mod NUM_LIMIT = 7533"
  by code_simp

subsection \<open>The arguments of main and its runs\<close>

text \<open>
  Claim C8, as amended: for every command line on which the number of arguments is not 3,
  or the array size is not in 1..\<open>MAX_SIZE\<close>, or the thread count is not in
  1..\<open>MAX_THREADS\<close>, or the index for the zero is not in -1..size - 1, \<open>main\<close> writes an
  error message and exits before it generates the input or creates a thread; on every
  other command line the run goes on, also when the thread count exceeds the array size.
\<close>

theorem main_rejects_invalid_arguments:
  "(argc \<noteq> 4 \<or> a1 \<le> 0 \<or> a1 > MAX_SIZE \<or> a2 > MAX_THREADS \<or> a2 \<le> 0 \<or>
    a3 < - 1 \<or> a3 \<ge> a1
      \<longrightarrow> (\<exists>msg. main rnd argc a1 a2 a3 = Inl msg) \<and>
          created_threads (run_events (main rnd argc a1 a2 a3)) = []) \<and>
   (argc = 4 \<and> 1 \<le> a1 \<and> a1 \<le> MAX_SIZE \<and> 1 \<le> a2 \<and> a2 \<le> MAX_THREADS \<and>
    - 1 \<le> a3 \<and> a3 < a1
      \<longrightarrow> main rnd argc a1 a2 a3 = Inr (trace (main_run rnd a1 a2 a3)))"
  by (auto simp: main_def run_events_def)

theorem main_rejects_invalid_arguments_witness:
  "main [5, 17] 4 2 17 (- 1) = Inl ''Invalid Thread Count'' \<and>
   created_threads (run_events (main [5, 17] 4 2 17 (- 1))) = [] \<and>
   main [5, 17] 4 2 3 (- 1) = Inr (trace (main_run [5, 17] 2 3 (- 1)))"
  using main_rejects_invalid_arguments [of 4 2 17 "- 1" "[5, 17]"]
    main_rejects_invalid_arguments [of 4 2 3 "- 1" "[5, 17]"]
  by (simp add: main_def MAX_SIZE_def MAX_THREADS_def)

text \<open>
  The claim as written fails for a thread count above the array size: with 2 elements and
  3 threads, \<open>main\<close> reports no error, creates the three threads and prints both products.
\<close>

theorem main_accepts_more_threads_than_elements:
  "main [5, 17] 4 2 3 (- 1) =
     Inr [PrintReport Sequential 108,
          PthreadCreate 0, PrintThreadStarted 0 0 0,
          PthreadCreate 1, PrintThreadStarted 1 1 1,
          PthreadCreate 2, PrintThreadStarted 2 2 1,
          PthreadJoin 0, PthreadJoin 1, PthreadJoin 2,
          PrintReport JoinBarrier 1]"
  by code_simp

text \<open>
  Claim C1 at the array \<open>[2]\<close> with one thread (the first value of \<^verbatim>\<open>rand\<close> being 1, no
  zero asked for): the sequential product is 2, and the product of the round with threads,
  from \<open>CalculateIndices\<close>, \<open>ThFindProd\<close> and \<open>ComputeTotalProduct\<close>, is 1.
\<close>

theorem main_join_barrier_product_differs:
  "main [1] 4 1 1 (- 1) =
     Inr [PrintReport Sequential 2,
          PthreadCreate 0, PrintThreadStarted 0 0 0, PthreadJoin 0,
          PrintReport JoinBarrier 1]"
  by code_simp

text \<open>
  Claim C2 at the array \<open>[0]\<close> with one thread (a single element, the zero asked for at
  index 0): the sequential product is 0, and the round with threads reports 1.
\<close>

theorem main_join_barrier_misses_zero:
  "main [1] 4 1 1 0 =
     Inr [PrintReport Sequential 0,
          PthreadCreate 0, PrintThreadStarted 0 0 0, PthreadJoin 0,
          PrintReport JoinBarrier 1]"
  by code_simp

subsection \<open>The reports of a run\<close>

lemma GenerateInput_cell:
  assumes "0 \<le> j" "j < sz" "sz \<le> int (length gd)"
  shows "GenerateInput rnd gd sz indexForZero ! nat j =
         (if j = indexForZero then 0 else GetRand (rnd ! nat j) 1 MAX_RANDOM_NUMBER)"
proof -
  let ?g1 = "GenerateInput_loop rnd sz 0 gd"
  note L = GenerateInput_loop_cells [of 0 rnd sz gd, simplified]
  have len1: "length ?g1 = length gd" using L by simp
  have cell1: "?g1 ! nat j = GetRand (rnd ! nat j) 1 MAX_RANDOM_NUMBER"
    using L assms by simp
  have nj: "nat j < length ?g1" using assms len1 by linarith
  show ?thesis
  proof (cases "j = indexForZero")
    case True
    with assms nj show ?thesis by (simp add: GenerateInput_def Let_def)
  next
    case False
    show ?thesis
    proof (cases "0 \<le> indexForZero \<and> indexForZero < sz")
      case True
      then have "nat indexForZero \<noteq> nat j" using False assms(1) by linarith
      with True False cell1 show ?thesis by (simp add: GenerateInput_def Let_def)
    next
      case F: False
      then have "GenerateInput rnd gd sz indexForZero = ?g1"
        unfolding GenerateInput_def Let_def by (simp only: if_False)
      with False cell1 show ?thesis by simp
    qed
  qed
qed

lemma GenerateInput_length:
  "length (GenerateInput rnd gd sz indexForZero) = length gd"
  using GenerateInput_loop_cells [of 0 rnd sz gd] by (simp add: GenerateInput_def Let_def)

lemma GenerateInput_bounds:
  assumes "sz \<le> int (length gd)" "sz \<le> int (length rnd)" "\<forall>r \<in> set rnd. 0 \<le> r"
  shows "\<forall>x \<in> set (take (nat sz) (GenerateInput rnd gd sz indexForZero)).
           0 \<le> x \<and> x \<le> MAX_RANDOM_NUMBER"
proof
  fix x assume "x \<in> set (take (nat sz) (GenerateInput rnd gd sz indexForZero))"
  then obtain n where n: "n < length (take (nat sz) (GenerateInput rnd gd sz indexForZero))"
    "x = take (nat sz) (GenerateInput rnd gd sz indexForZero) ! n"
    by (auto simp: in_set_conv_nth)
  then have nsz: "n < nat sz" by simp
  then have j: "0 \<le> int n" "int n < sz" by linarith+
  have x: "x = GenerateInput rnd gd sz indexForZero ! nat (int n)" using n(2) nsz by simp
  have "n < length rnd" using nsz assms(2) by linarith
  then have "rnd ! n \<in> set rnd" by simp
  with assms(3) have r: "0 \<le> rnd ! nat (int n)" by simp
  show "0 \<le> x \<and> x \<le> MAX_RANDOM_NUMBER"
    unfolding x GenerateInput_cell [OF j assms(1)]
    using GetRand_range(2,3) [OF r] by (simp add: MAX_RANDOM_NUMBER_def)
qed

lemma reports_append: "reports (xs @ ys) = reports xs @ reports ys"
  by (induction xs rule: reports.induct) simp_all

lemma main_create_threads_reports:
  "reports (trace (main_create_threads st indices i)) = reports (trace st)"
proof (induction st indices i rule: main_create_threads.induct)
  case (1 st indices i)
  show ?case
  proof (cases "i < gThreadCount st")
    case False
    then show ?thesis by (simp add: main_create_threads.simps [of st indices i])
  next
    case True
    from "1.IH" [OF True refl refl] True show ?thesis
      by (simp add: main_create_threads.simps [of st indices i] Let_def ThFindProd_frame
            reports_append)
  qed
qed

lemma main_join_threads_reports:
  "reports (trace (main_join_threads st i)) = reports (trace st)"
proof (induction st i rule: main_join_threads.induct)
  case (1 st i)
  show ?case
  proof (cases "i < gThreadCount st")
    case False
    then show ?thesis by (simp add: main_join_threads.simps [of st i])
  next
    case True
    from "1.IH" [OF True] True show ?thesis
      by (simp add: main_join_threads.simps [of st i] reports_append)
  qed
qed

lemma reports_print:
  "reports (trace (st\<lparr>trace := trace st @ [PrintReport m p]\<rparr>)) = reports (trace st) @ [(m, p)]"
  by (simp add: reports_append)

lemma InitSharedVars_trace: "trace (InitSharedVars st) = trace st"
  using InitSharedVars_loop_cells [of 0 st] by (simp add: InitSharedVars_def)

text \<open>
  Claim C4 against the code: for every valid configuration (and values of \<^verbatim>\<open>rand\<close> that
  are not negative), the run prints two reports and no more: the one of the sequential round,
  with the product of \<open>SqFindProd\<close>, which lies in \<open>[0, NUM_LIMIT)\<close>, and the one of the round
  in which the parent joins its threads, with the product 1. The busy-wait round and the
  semaphore round print no report: they come after \<^verbatim>\<open>exit(0)\<close>.
\<close>

theorem main_reports_only_two_modes:
  assumes "argc = 4" "1 \<le> a1" "a1 \<le> MAX_SIZE" "1 \<le> a2" "a2 \<le> MAX_THREADS"
    and "- 1 \<le> a3" "a3 < a1"
    and "a1 \<le> int (length rnd)" "\<forall>r \<in> set rnd. 0 \<le> r"
  shows
    "reports (run_events (main rnd argc a1 a2 a3)) =
       [(Sequential, SqFindProd (GenerateInput rnd (replicate (nat a1) 0) a1 a3) a1),
        (JoinBarrier, 1)] \<and>
     0 \<le> SqFindProd (GenerateInput rnd (replicate (nat a1) 0) a1 a3) a1 \<and>
     SqFindProd (GenerateInput rnd (replicate (nat a1) 0) a1 a3) a1 < NUM_LIMIT"
proof -
  let ?gd = "GenerateInput rnd (replicate (nat a1) 0) a1 a3"
  let ?st0 = "(initial_globals a1)\<lparr>gThreadCount := a2\<rparr>"
  let ?st1 = "?st0\<lparr>gData := ?gd\<rparr>"
  let ?st2 = "?st1\<lparr>trace := trace ?st1 @ [PrintReport Sequential (SqFindProd ?gd a1)]\<rparr>"
  let ?ind = "CalculateIndices a1 a2 (replicate (nat MAX_THREADS) (0, 0, 0))"
  let ?st5 = "main_join_threads (main_create_threads (InitSharedVars ?st2) ?ind 0) 0"
  have run: "main_run rnd a1 a2 a3 =
      ?st5\<lparr>trace := trace ?st5 @ [PrintReport JoinBarrier (ComputeTotalProduct ?st5)]\<rparr>"
    by (simp add: main_run_def Let_def initial_globals_def)
  have "gThreadCount ?st2 \<le> int (length (gThreadProd ?st2))"
    using assms(5) by (simp add: initial_globals_def MAX_THREADS_def)
  then have one: "ComputeTotalProduct ?st5 = 1" by (rule join_round_product)
  have tr: "reports (trace ?st5) = [(Sequential, SqFindProd ?gd a1)]"
    by (simp add: main_join_threads_reports main_create_threads_reports InitSharedVars_trace
          initial_globals_def)
  have m: "main rnd argc a1 a2 a3 = Inr (trace (main_run rnd a1 a2 a3))"
    using assms(1-7) by (auto simp: main_def)
  have r: "reports (run_events (main rnd argc a1 a2 a3)) =
       [(Sequential, SqFindProd ?gd a1), (JoinBarrier, 1)]"
    unfolding m run run_events_def
    by (simp only: sum.case reports_print tr one append.simps)
  have len: "a1 \<le> int (length (replicate (nat a1) (0::int)))" using assms(2) by simp
  have b: "\<forall>x \<in> set (take (nat a1) ?gd). 0 \<le> x \<and> x * (NUM_LIMIT - 1) \<le> INT_MAX"
    using GenerateInput_bounds [OF len assms(8,9), of a3]
    by (auto simp: MAX_RANDOM_NUMBER_def NUM_LIMIT_def INT_MAX_def)
  have "a1 \<le> int (length ?gd)" using len by (simp add: GenerateInput_length)
  then have "SqFindProd ?gd a1 = prod_list (take (nat a1) ?gd) mod NUM_LIMIT"
    using b by (rule SqFindProd_eq_prod_mod)
  then have "0 \<le> SqFindProd ?gd a1 \<and> SqFindProd ?gd a1 < NUM_LIMIT"
    by (simp add: NUM_LIMIT_def)
  with r show ?thesis by simp
qed

theorem main_reports_only_two_modes_witness:
  "reports (run_events (main [5, 17, 3] 4 3 2 (- 1))) =
     [(Sequential, 432), (JoinBarrier, 1)]"
proof -
  have s: "SqFindProd (GenerateInput [5, 17, 3] (replicate 3 0) 3 (- 1)) 3 = 432"
    by code_simp
  show ?thesis
    using main_reports_only_two_modes [of 4 3 2 "- 1" "[5, 17, 3]"]
    by (simp add: s MAX_SIZE_def MAX_THREADS_def)
qed

end
